theory Spec2Isabelle
  imports Main "HOL-Library.Sublist" "HOL-Library.Multiset" "HOL-Library.Word"
begin

section \<open>JavaScript values\<close>

text \<open>
  A number is a double.  The numbers of the model are \<^verbatim>\<open>NaN\<close>, the two infinities (the
  argument tells whether it is the negative one), zero (no operation of the code tells
  \<^verbatim>\<open>-0\<close> from \<^verbatim>\<open>+0\<close>) and the finite numbers \<open>s \<times> 10\<^sup>e\<close> and \<open>- s \<times> 10\<^sup>e\<close> whose
  significand \<open>s\<close> ends with a digit other than zero and has at most fourteen digits
  before it, with an exponent \<open>e\<close> from \<open>-256\<close> to \<open>255\<close>.  Such a number is given by
  its sign (true for negative), the significand without its last digit (below \<open>2\<^sup>4\<^sup>6\<close>),
  the last digit, and the exponent (nine bits, signed).  A decimal numeral of at most
  fifteen significant digits in this range is the shortest one that denotes its double:
  \<open>s\<close> and \<open>e\<close> are the digits and the exponent from which \<^verbatim>\<open>Number::toString\<close> prints
  the number, and two numbers are the same double exactly when they are the same term.
\<close>

datatype digit = D1 | D2 | D3 | D4 | D5 | D6 | D7 | D8 | D9

datatype number = NaN | Infinity bool | Zero | Finite bool "46 word" digit "9 word"

text \<open>
  The converters take arguments of type \<^verbatim>\<open>any\<close>.  A value is modelled as plain data, the
  kind of value that reaches the UI through message passing: no functions, no symbols, no
  shared references.  A string is the list of the bytes of its UTF-8 encoding.  An
  object is the list of its own enumerable properties in the order in which
  \<^verbatim>\<open>Object.keys\<close> and \<^verbatim>\<open>for ... in\<close> enumerate them.
\<close>

datatype jsval =
    JUndefined
  | JNull
  | JBool bool
  | JNum number
  | JStr string
  | JArr "jsval list"
  | JObj "(string \<times> jsval) list"

datatype error = TypeError | StackOverflow

text \<open>Sequencing of computations that may throw: the first exception propagates.\<close>

definition thenE :: "error + 'a \<Rightarrow> ('a \<Rightarrow> error + 'b) \<Rightarrow> error + 'b" where
  "thenE m f = (case m of Inl e \<Rightarrow> Inl e | Inr x \<Rightarrow> f x)"

fun truthy :: "jsval \<Rightarrow> bool" where
  "truthy JUndefined = False"
| "truthy JNull = False"
| "truthy (JBool b) = b"
| "truthy (JNum x) = (x \<noteq> Zero \<and> x \<noteq> NaN)"
| "truthy (JStr s) = (s \<noteq> [])"
| "truthy (JArr xs) = True"
| "truthy (JObj kvs) = True"

fun typeof :: "jsval \<Rightarrow> string" where
  "typeof JUndefined = ''undefined''"
| "typeof JNull = ''object''"
| "typeof (JBool b) = ''boolean''"
| "typeof (JNum n) = ''number''"
| "typeof (JStr s) = ''string''"
| "typeof (JArr xs) = ''object''"
| "typeof (JObj kvs) = ''object''"

fun isArray :: "jsval \<Rightarrow> bool" where
  "isArray (JArr xs) = True"
| "isArray v = False"

fun is_primitive :: "jsval \<Rightarrow> bool" where
  "is_primitive (JArr xs) = False"
| "is_primitive (JObj kvs) = False"
| "is_primitive v = True"

text \<open>\<^verbatim>\<open>a || b\<close>\<close>

definition or_else :: "jsval \<Rightarrow> jsval \<Rightarrow> jsval" where
  "or_else a b = (if truthy a then a else b)"

text \<open>
  \<^verbatim>\<open>a === b\<close>; \<^verbatim>\<open>a !== b\<close> is its negation.  Primitives compare by value, and
  \<^verbatim>\<open>NaN\<close> is equal to nothing.  Two objects are equal only when they are the same
  reference, which two different places of a plain data value never are.
\<close>

definition strict_eq :: "jsval \<Rightarrow> jsval \<Rightarrow> bool" where
  "strict_eq a b = (is_primitive a \<and> a = b \<and> a \<noteq> JNum NaN)"

subsection \<open>Strings\<close>

function decimal :: "nat \<Rightarrow> string" where
  "decimal n = (if n < 10 then [''0123456789'' ! n]
                else decimal (n div 10) @ [''0123456789'' ! (n mod 10)])"
  by pat_completeness auto
termination
  by (relation "measure (\<lambda>n. n)") auto

declare decimal.simps [simp del]

text \<open>\<^verbatim>\<open>xs.join(sep)\<close> on an array of strings.\<close>

fun join :: "string \<Rightarrow> string list \<Rightarrow> string" where
  "join sep [] = []"
| "join sep [x] = x"
| "join sep (x # y # ys) = x @ sep @ join sep (y # ys)"

text \<open>
  \<^verbatim>\<open>s.split(sep)\<close> for a non-empty separator: \<open>cur\<close> is the segment read so far.
  The leftmost occurrences of the separator cut the string.
\<close>

function split_from :: "string \<Rightarrow> string \<Rightarrow> string \<Rightarrow> string list" where
  "split_from sep cur s =
     (if s = [] then [cur]
      else if sep \<noteq> [] \<and> take (length sep) s = sep
        then cur # split_from sep [] (drop (length sep) s)
        else split_from sep (cur @ [hd s]) (tl s))"
  by pat_completeness auto
termination
  by (relation "measure (\<lambda>(sep, cur, s). length s)") auto

declare split_from.simps [simp del]

definition split :: "string \<Rightarrow> string \<Rightarrow> string list" where
  "split sep s = split_from sep [] s"

text \<open>
  The number of UTF-16 code units of a string given in UTF-8: one for each byte that
  starts a character, and one more for a character outside the basic plane.
\<close>

definition utf16_length :: "string \<Rightarrow> nat" where
  "utf16_length s =
     length (filter (\<lambda>c. \<not> (128 \<le> (of_char c :: nat) \<and> (of_char c :: nat) < 192)) s)
     + length (filter (\<lambda>c. 240 \<le> (of_char c :: nat)) s)"

text \<open>
  \<^verbatim>\<open>Number::toString\<close> in radix ten.  For a finite number other than zero, \<open>s\<close> has
  \<open>k\<close> digits and the number is \<open>s \<times> 10\<^sup>e\<close>; with \<open>n = e + k\<close> the text is the digits
  followed by zeros when \<open>k \<le> n \<le> 21\<close>, the digits with a point after the first \<open>n\<close>
  of them when \<open>0 < n \<le> 21\<close>, the digits after \<^verbatim>\<open>0.\<close> and zeros when \<open>-6 < n \<le> 0\<close>,
  and the exponent notation otherwise.
\<close>

fun digit_value :: "digit \<Rightarrow> nat" where
  "digit_value D1 = 1" | "digit_value D2 = 2" | "digit_value D3 = 3"
| "digit_value D4 = 4" | "digit_value D5 = 5" | "digit_value D6 = 6"
| "digit_value D7 = 7" | "digit_value D8 = 8" | "digit_value D9 = 9"

definition significand :: "46 word \<Rightarrow> digit \<Rightarrow> nat" where
  "significand q r = 10 * unat q + digit_value r"

definition finite_toString :: "nat \<Rightarrow> int \<Rightarrow> string" where
  "finite_toString s e =
     (let ds = decimal s; k = int (length ds); n = e + k
      in if k \<le> n \<and> n \<le> 21 then ds @ replicate (nat (n - k)) (CHR ''0'')
         else if 0 < n \<and> n \<le> 21 then take (nat n) ds @ ''.'' @ drop (nat n) ds
         else if - 6 < n \<and> n \<le> 0 then ''0.'' @ replicate (nat (- n)) (CHR ''0'') @ ds
         else (if k = 1 then ds else take 1 ds @ ''.'' @ drop 1 ds)
              @ ''e'' @ (if n - 1 < 0 then ''-'' else ''+'') @ decimal (nat (abs (n - 1))))"

fun Number_toString :: "number \<Rightarrow> string" where
  "Number_toString NaN = ''NaN''"
| "Number_toString (Infinity negative) = (if negative then ''-Infinity'' else ''Infinity'')"
| "Number_toString Zero = ''0''"
| "Number_toString (Finite negative q r e) =
     (if negative then ''-'' else '''') @ finite_toString (significand q r) (sint e)"

text \<open>
  String conversion, as a template literal \<^verbatim>\<open>`${v}`\<close> and \<^verbatim>\<open>String(v)\<close> do it.  An
  array is converted by \<^verbatim>\<open>Array.prototype.join\<close>, which leaves null and undefined
  elements empty.  An object is converted by the \<^verbatim>\<open>toString\<close> that it inherits, unless
  it has a property of that name: in plain data that property is not a function, the
  \<^verbatim>\<open>valueOf\<close> that is tried next yields no primitive either, and the conversion throws.
\<close>

fun js_toString :: "jsval \<Rightarrow> error + string"
  and join_elements :: "jsval list \<Rightarrow> error + string list"
where
  "js_toString JUndefined = Inr ''undefined''"
| "js_toString JNull = Inr ''null''"
| "js_toString (JBool b) = Inr (if b then ''true'' else ''false'')"
| "js_toString (JNum x) = Inr (Number_toString x)"
| "js_toString (JStr s) = Inr s"
| "js_toString (JArr xs) = thenE (join_elements xs) (\<lambda>texts. Inr (join '','' texts))"
| "js_toString (JObj kvs) =
     (if ''toString'' \<in> fst ` set kvs then Inl TypeError else Inr ''[object Object]'')"
| "join_elements [] = Inr []"
| "join_elements (x # xs) =
     thenE (if x = JUndefined \<or> x = JNull then Inr [] else js_toString x) (\<lambda>first.
     thenE (join_elements xs) (\<lambda>others. Inr (first # others)))"

subsection \<open>Properties\<close>

text \<open>
  The own enumerable properties of a value.  Array indices are decimal strings; a string
  has one index per code unit (the characters themselves are never inspected by the code
  below, only their properties).
\<close>

fun own_entries :: "jsval \<Rightarrow> (string \<times> jsval) list" where
  "own_entries (JObj kvs) = kvs"
| "own_entries (JArr xs) = zip (map decimal [0..<length xs]) xs"
| "own_entries (JStr s) = map (\<lambda>i. (decimal i, JStr ''?'')) [0..<utf16_length s]"
| "own_entries v = []"

text \<open>
  \<^verbatim>\<open>v[k]\<close> for a value that is neither null nor undefined.  The property names that the
  code reads (\<^verbatim>\<open>name\<close>, \<^verbatim>\<open>type\<close>, \<^verbatim>\<open>path\<close>, \<^verbatim>\<open>parentPath\<close>, or a key
  that \<^verbatim>\<open>Object.keys\<close> returned) are not inherited from any built-in prototype, so a
  property that is not an own property reads as undefined.
\<close>

definition js_get :: "jsval \<Rightarrow> string \<Rightarrow> jsval" where
  "js_get v k = (case map_of (own_entries v) k of Some x \<Rightarrow> x | None \<Rightarrow> JUndefined)"

text \<open>\<^verbatim>\<open>v.k\<close>: reading a property of null or undefined throws.\<close>

definition read_prop :: "jsval \<Rightarrow> string \<Rightarrow> error + jsval" where
  "read_prop v k = (if v = JUndefined \<or> v = JNull then Inl TypeError else Inr (js_get v k))"

text \<open>\<^verbatim>\<open>Object.keys(v)\<close>\<close>

definition object_keys :: "jsval \<Rightarrow> error + string list" where
  "object_keys v =
     (if v = JUndefined \<or> v = JNull then Inl TypeError else Inr (map fst (own_entries v)))"

subsection \<open>Maps keyed by values\<close>

text \<open>
  \<^verbatim>\<open>Map.prototype.set\<close> and \<^verbatim>\<open>get\<close>.  Primitive keys are compared by value
  (here \<^verbatim>\<open>NaN\<close> is found again).  An entry stored under an object is found again only
  through the same reference, which no other place of a plain data value holds, so such
  an entry is never found.
\<close>

definition map_set :: "(jsval \<Rightarrow> 'a option) \<Rightarrow> jsval \<Rightarrow> 'a \<Rightarrow> (jsval \<Rightarrow> 'a option)" where
  "map_set m k v = (if is_primitive k then m(k \<mapsto> v) else m)"

definition map_get :: "(jsval \<Rightarrow> 'a option) \<Rightarrow> jsval \<Rightarrow> 'a option" where
  "map_get m k = (if is_primitive k then m k else None)"

section \<open>The tree view: \<^verbatim>\<open>convertAnatomyToTree\<close>\<close>

subsection \<open>Tree nodes\<close>

text \<open>
  Tree nodes are mutable objects: a node is pushed onto the \<^verbatim>\<open>children\<close> array of a
  parent that is already referenced from elsewhere.  The nodes created by one call of
  \<^verbatim>\<open>buildTreeFromAnatomy\<close> live in a store, a list indexed by address; the address of a
  node is the number of nodes created before it.
\<close>

record TreeNode =
  name :: jsval
  type :: jsval
  path :: jsval
  parentPath :: jsval
  children :: "nat list"

record build_state =
  nodes :: "TreeNode list"
  rootNodes :: "nat list"
  nodesByPath :: "jsval \<Rightarrow> nat option"

definition push_child :: "TreeNode list \<Rightarrow> nat \<Rightarrow> nat \<Rightarrow> TreeNode list" where
  "push_child store parent child =
     store[parent := (store ! parent)\<lparr>children := children (store ! parent) @ [child]\<rparr>]"

subsection \<open>\<^verbatim>\<open>buildTreeFromAnatomy\<close>\<close>

text \<open>
  The record that the object shape yields for one key:
  \<^verbatim>\<open>{name: nodeName, type: anatomy[nodeName].type, path: anatomy[nodeName].path,
    parentPath: anatomy[nodeName].path.split(' > ').slice(0, -1).join(' > ')}\<close>.
\<close>

definition object_node :: "jsval \<Rightarrow> string \<Rightarrow> error + jsval" where
  "object_node anatomy nodeName =
     thenE (read_prop (js_get anatomy nodeName) ''type'') (\<lambda>t.
     thenE (read_prop (js_get anatomy nodeName) ''path'') (\<lambda>p.
       (case p of
          JStr s \<Rightarrow>
            Inr (JObj [(''name'', JStr nodeName), (''type'', t), (''path'', p),
                       (''parentPath'', JStr (join '' > '' (butlast (split '' > '' s))))])
        | _ \<Rightarrow> Inl TypeError)))"

fun map_nodes :: "jsval \<Rightarrow> string list \<Rightarrow> error + jsval list" where
  "map_nodes anatomy [] = Inr []"
| "map_nodes anatomy (k # ks) =
     thenE (object_node anatomy k) (\<lambda>n.
     thenE (map_nodes anatomy ks) (\<lambda>ns. Inr (n # ns)))"

definition nodesArray_of :: "jsval \<Rightarrow> error + jsval list" where
  "nodesArray_of anatomy =
     (case anatomy of
        JArr xs \<Rightarrow> Inr xs
      | _ \<Rightarrow> thenE (object_keys anatomy) (map_nodes anatomy))"

text \<open>One iteration of the loop \<^verbatim>\<open>for (const nodeData of nodesArray)\<close>.\<close>

definition add_node :: "build_state \<Rightarrow> jsval \<Rightarrow> error + build_state" where
  "add_node st nodeData =
     (if nodeData = JUndefined \<or> nodeData = JNull then Inl TypeError
      else
        let a = length (nodes st);
            treeNode = \<lparr>name = js_get nodeData ''name'',
                        type = or_else (js_get nodeData ''type'') (JStr ''UNKNOWN''),
                        path = or_else (js_get nodeData ''path'') (js_get nodeData ''name''),
                        parentPath = or_else (js_get nodeData ''parentPath'') (JStr ''''),
                        children = []\<rparr>;
            pathKey = or_else (js_get nodeData ''path'') (js_get nodeData ''name'');
            st1 = st\<lparr>nodes := nodes st @ [treeNode],
                     nodesByPath := map_set (nodesByPath st) pathKey a\<rparr>
        in if \<not> truthy (js_get nodeData ''parentPath'')
              \<or> strict_eq (js_get nodeData ''parentPath'') (JStr '''')
           then Inr (st1\<lparr>rootNodes := rootNodes st1 @ [a]\<rparr>)
           else (case map_get (nodesByPath st1) (js_get nodeData ''parentPath'') of
                   Some parent \<Rightarrow> Inr (st1\<lparr>nodes := push_child (nodes st1) parent a\<rparr>)
                 | None \<Rightarrow> Inr (st1\<lparr>rootNodes := rootNodes st1 @ [a]\<rparr>)))"

fun add_nodes :: "build_state \<Rightarrow> jsval list \<Rightarrow> error + build_state" where
  "add_nodes st [] = Inr st"
| "add_nodes st (nodeData # rest) = thenE (add_node st nodeData) (\<lambda>st'. add_nodes st' rest)"

definition empty_state :: build_state where
  "empty_state = \<lparr>nodes = [], rootNodes = [], nodesByPath = (\<lambda>k. None)\<rparr>"

text \<open>The result is the store together with the addresses of the root nodes.\<close>

definition buildTreeFromAnatomy :: "jsval \<Rightarrow> error + (TreeNode list \<times> nat list)" where
  "buildTreeFromAnatomy anatomy =
     thenE (nodesArray_of anatomy) (\<lambda>nodesArray.
     thenE (add_nodes empty_state nodesArray) (\<lambda>st. Inr (nodes st, rootNodes st)))"

subsection \<open>\<^verbatim>\<open>renderTree\<close>\<close>

definition package_glyph :: string where
  "package_glyph = [CHR 0xF0, CHR 0x9F, CHR 0x93, CHR 0xA6]"

definition corner_glyph :: string where
  "corner_glyph = [CHR 0xE2, CHR 0x94, CHR 0x94]"

definition tee_glyph :: string where
  "tee_glyph = [CHR 0xE2, CHR 0x94, CHR 0x9C]"

definition dash_glyph :: string where
  "dash_glyph = [CHR 0xE2, CHR 0x94, CHR 0x80]"

definition bar_glyph :: string where
  "bar_glyph = [CHR 0xE2, CHR 0x94, CHR 0x82]"

text \<open>
  The lines that \<^verbatim>\<open>renderNode\<close> pushes for the node itself.  The template literals
  convert the name and the type to strings, in the order of the source.
\<close>

definition node_lines :: "TreeNode \<Rightarrow> string \<Rightarrow> bool \<Rightarrow> bool \<Rightarrow> error + string list" where
  "node_lines node prefix' isLast isRoot =
     (if isRoot
      then thenE (js_toString (name node)) (\<lambda>nameText.
           thenE (js_toString (type node)) (\<lambda>typeText.
             Inr [package_glyph @ '' '' @ nameText,
                  ''   '' @ corner_glyph @ dash_glyph @ '' type: '' @ typeText]))
      else
        let connector = (if isLast then corner_glyph @ dash_glyph @ '' ''
                         else tee_glyph @ dash_glyph @ '' '')
        in thenE (if truthy (type node)
                  then thenE (js_toString (type node)) (\<lambda>typeText.
                         Inr ('' ('' @ typeText @ '')''))
                  else Inr '''') (\<lambda>typeInfo.
           thenE (js_toString (name node)) (\<lambda>nameText.
             Inr [prefix' @ connector @ nameText @ typeInfo])))"

definition child_prefix :: "string \<Rightarrow> bool \<Rightarrow> bool \<Rightarrow> string" where
  "child_prefix prefix' isLast isRoot =
     (if isRoot then ''   '' else prefix' @ (if isLast then ''   '' else bar_glyph @ ''  ''))"

text \<open>
  \<^verbatim>\<open>renderNode\<close> is recursive over the store.  The first argument bounds the depth of
  the recursion; running out of it is the exception of a call stack that overflows.
  The result is the list of lines pushed onto \<^verbatim>\<open>lines\<close> by the call.
\<close>

fun renderNode :: "nat \<Rightarrow> TreeNode list \<Rightarrow> nat \<Rightarrow> string \<Rightarrow> bool \<Rightarrow> bool \<Rightarrow> error + string list"
  and renderChildren :: "nat \<Rightarrow> TreeNode list \<Rightarrow> nat list \<Rightarrow> string \<Rightarrow> error + string list"
where
  "renderNode 0 store node prefix' isLast isRoot = Inl StackOverflow"
| "renderNode (Suc fuel) store node prefix' isLast isRoot =
     thenE (node_lines (store ! node) prefix' isLast isRoot) (\<lambda>own.
     thenE (renderChildren fuel store (children (store ! node))
              (child_prefix prefix' isLast isRoot)) (\<lambda>below.
       Inr (own @ below)))"
| "renderChildren fuel store [] childPrefix = Inr []"
| "renderChildren fuel store (child # rest) childPrefix =
     thenE (renderNode fuel store child childPrefix (rest = []) False) (\<lambda>first.
     thenE (renderChildren fuel store rest childPrefix) (\<lambda>others. Inr (first @ others)))"

text \<open>\<^verbatim>\<open>rootNodes.forEach((root, index) => ...)\<close>, from position \<open>index\<close> on.\<close>

fun renderRoots :: "nat \<Rightarrow> TreeNode list \<Rightarrow> nat \<Rightarrow> nat list \<Rightarrow> error + string list" where
  "renderRoots fuel store index [] = Inr []"
| "renderRoots fuel store index (root # rest) =
     thenE (renderNode fuel store root '''' True True) (\<lambda>first.
     thenE (renderRoots fuel store (Suc index) rest) (\<lambda>others.
       Inr ((if index > 0 then [''''] else []) @ first @ others)))"

definition newline :: string where
  "newline = [CHR 0x0A]"

definition renderTree :: "nat \<Rightarrow> TreeNode list \<times> nat list \<Rightarrow> error + string" where
  "renderTree fuel forest =
     thenE (renderRoots fuel (fst forest) 0 (snd forest)) (\<lambda>lines. Inr (join newline lines))"

subsection \<open>\<^verbatim>\<open>compareAnatomies\<close>\<close>

text \<open>\<^verbatim>\<open>Array.isArray(anat) ? anat : Object.keys(anat).map(k => anat[k])\<close>\<close>

definition as_array :: "jsval \<Rightarrow> error + jsval list" where
  "as_array anat =
     (case anat of
        JArr xs \<Rightarrow> Inr xs
      | _ \<Rightarrow> thenE (object_keys anat) (\<lambda>ks. Inr (map (js_get anat) ks)))"

text \<open>\<^verbatim>\<open>x.k !== y.k\<close>\<close>

definition field_differs :: "jsval \<Rightarrow> jsval \<Rightarrow> string \<Rightarrow> error + bool" where
  "field_differs x y k =
     thenE (read_prop x k) (\<lambda>a.
     thenE (read_prop y k) (\<lambda>b. Inr (\<not> strict_eq a b)))"

text \<open>
  The loop over the positions of \<^verbatim>\<open>arr1\<close>.  It runs only on arrays of equal length;
  past the end of \<^verbatim>\<open>arr2\<close> the element is undefined and reading its property throws.
\<close>

fun compare_elements :: "jsval list \<Rightarrow> jsval list \<Rightarrow> error + bool" where
  "compare_elements [] ys = Inr True"
| "compare_elements (x # xs) [] =
     thenE (field_differs x JUndefined ''name'') (\<lambda>d. Inl TypeError)"
| "compare_elements (x # xs) (y # ys) =
     thenE (field_differs x y ''name'') (\<lambda>d1. if d1 then Inr False else
     thenE (field_differs x y ''type'') (\<lambda>d2. if d2 then Inr False else
     thenE (field_differs x y ''path'') (\<lambda>d3. if d3 then Inr False else
       compare_elements xs ys)))"

definition compareAnatomies :: "jsval \<Rightarrow> jsval \<Rightarrow> error + bool" where
  "compareAnatomies anat1 anat2 =
     thenE (as_array anat1) (\<lambda>arr1.
     thenE (as_array anat2) (\<lambda>arr2.
       if length arr1 \<noteq> length arr2 then Inr False else compare_elements arr1 arr2))"

subsection \<open>Grouping the variants\<close>

text \<open>
  \<^verbatim>\<open>anatomyGroups\<close> is a \<^verbatim>\<open>Map\<close> from a signature to a list of variant names; its
  entries are kept in insertion order.  The signature is \<^verbatim>\<open>JSON.stringify(variantAnatomy)\<close>
  and is only ever used as a key.  It is represented by the value that the text denotes:
  \<^verbatim>\<open>JSON.stringify\<close> writes an undefined array element as null, leaves out a property
  whose value is undefined and writes \<^verbatim>\<open>NaN\<close> and the infinities as null; two values
  have the same text exactly when they agree after that.
\<close>

fun JSON_stringify :: "jsval \<Rightarrow> jsval" where
  "JSON_stringify (JArr xs) =
     JArr (map (\<lambda>x. if x = JUndefined then JNull else JSON_stringify x) xs)"
| "JSON_stringify (JObj kvs) =
     JObj (map (\<lambda>kv. (fst kv, JSON_stringify (snd kv)))
            (filter (\<lambda>kv. snd kv \<noteq> JUndefined) kvs))"
| "JSON_stringify (JNum x) =
     (case x of NaN \<Rightarrow> JNull | Infinity negative \<Rightarrow> JNull | _ \<Rightarrow> JNum x)"
| "JSON_stringify v = v"

type_synonym groups = "(jsval \<times> string list) list"

text \<open>\<^verbatim>\<open>anatomyGroups.set(signature, list)\<close>: an existing key keeps its place.\<close>

fun groups_set :: "groups \<Rightarrow> jsval \<Rightarrow> string list \<Rightarrow> groups" where
  "groups_set [] signature variantList = [(signature, variantList)]"
| "groups_set ((k, v) # rest) signature variantList =
     (if k = signature then (k, variantList) # rest
      else (k, v) # groups_set rest signature variantList)"

text \<open>\<^verbatim>\<open>variantList[0]\<close>, as a property key.\<close>

definition first_name :: "string list \<Rightarrow> string" where
  "first_name variantList = (case variantList of [] \<Rightarrow> ''undefined'' | v # vs \<Rightarrow> v)"

text \<open>
  The inner loop over the entries of \<^verbatim>\<open>anatomyGroups\<close>: the groups after the push when
  a group matched (\<^verbatim>\<open>foundGroup\<close>), nothing otherwise.
\<close>

fun find_group :: "jsval \<Rightarrow> string \<Rightarrow> groups \<Rightarrow> error + groups option" where
  "find_group anatomyData variantName [] = Inr None"
| "find_group anatomyData variantName ((signature, variantList) # rest) =
     thenE (compareAnatomies (js_get anatomyData variantName)
              (js_get anatomyData (first_name variantList))) (\<lambda>same.
       if same then Inr (Some ((signature, variantList @ [variantName]) # rest))
       else thenE (find_group anatomyData variantName rest) (\<lambda>found.
              Inr (map_option (\<lambda>rest'. (signature, variantList) # rest') found)))"

definition add_variant :: "jsval \<Rightarrow> groups \<Rightarrow> string \<Rightarrow> error + groups" where
  "add_variant anatomyData anatomyGroups variantName =
     thenE (find_group anatomyData variantName anatomyGroups) (\<lambda>found.
       (case found of
          Some anatomyGroups' \<Rightarrow> Inr anatomyGroups'
        | None \<Rightarrow>
            Inr (groups_set anatomyGroups
                   (JSON_stringify (js_get anatomyData variantName)) [variantName])))"

fun group_variants :: "jsval \<Rightarrow> groups \<Rightarrow> string list \<Rightarrow> error + groups" where
  "group_variants anatomyData anatomyGroups [] = Inr anatomyGroups"
| "group_variants anatomyData anatomyGroups (variantName # rest) =
     thenE (add_variant anatomyData anatomyGroups variantName) (\<lambda>anatomyGroups'.
       group_variants anatomyData anatomyGroups' rest)"

subsection \<open>Rendering the groups\<close>

definition rule_line :: string where
  "rule_line = concat (replicate 60 dash_glyph)"

definition group_header :: "string list \<Rightarrow> string" where
  "group_header variantList =
     (if length variantList = 1 then ''[Variant: '' @ first_name variantList @ '']''
      else ''[Variants: '' @ join '', '' variantList @ '']'')"

fun render_groups :: "nat \<Rightarrow> jsval \<Rightarrow> nat \<Rightarrow> groups \<Rightarrow> error + string list" where
  "render_groups fuel anatomyData groupIndex [] = Inr []"
| "render_groups fuel anatomyData groupIndex ((signature, variantList) # rest) =
     thenE (buildTreeFromAnatomy (js_get anatomyData (first_name variantList))) (\<lambda>rootNodes.
     thenE (renderTree fuel rootNodes) (\<lambda>tree.
     thenE (render_groups fuel anatomyData (Suc groupIndex) rest) (\<lambda>others.
       Inr ((if groupIndex > 0 then ['''', rule_line, ''''] else [])
            @ [group_header variantList, '''', tree] @ others))))"

subsection \<open>The converter\<close>

definition isVariantBased :: "jsval \<Rightarrow> bool" where
  "isVariantBased firstValue =
     (truthy firstValue \<and>
      (isArray firstValue \<or>
       (typeof firstValue = ''object'' \<and>
        strict_eq (js_get firstValue ''type'') JUndefined \<and>
        strict_eq (js_get firstValue ''path'') JUndefined)))"

text \<open>\<^verbatim>\<open>anatomyData[Object.keys(anatomyData)[0]]\<close>\<close>

definition first_value :: "jsval \<Rightarrow> jsval" where
  "first_value anatomyData = js_get anatomyData (first_name (map fst (own_entries anatomyData)))"

text \<open>
  The branch taken for a variant-based input.  The first argument bounds the depth of
  the recursion of \<^verbatim>\<open>renderNode\<close>, as above.
\<close>

definition render_variants :: "nat \<Rightarrow> jsval \<Rightarrow> error + string" where
  "render_variants fuel anatomyData =
     (let variants = map fst (own_entries anatomyData) in
      thenE (group_variants anatomyData [] variants) (\<lambda>anatomyGroups.
        if length anatomyGroups = 1
        then thenE (buildTreeFromAnatomy (js_get anatomyData (first_name variants)))
               (renderTree fuel)
        else thenE (render_groups fuel anatomyData 0 anatomyGroups) (\<lambda>lines.
               Inr (join newline lines))))"

text \<open>The branch taken for a single anatomy.\<close>

definition render_single :: "nat \<Rightarrow> jsval \<Rightarrow> error + string" where
  "render_single fuel anatomyData = thenE (buildTreeFromAnatomy anatomyData) (renderTree fuel)"

definition convertAnatomyToTree :: "nat \<Rightarrow> jsval \<Rightarrow> error + string" where
  "convertAnatomyToTree fuel anatomyData =
     (if \<not> truthy anatomyData \<or> typeof anatomyData \<noteq> ''object'' then Inr ''''
      else if isVariantBased (first_value anatomyData) then render_variants fuel anatomyData
      else render_single fuel anatomyData)"

section \<open>The earlier converter of \<^verbatim>\<open>src/app/utils/converters.ts\<close>\<close>

text \<open>
  The file \<^verbatim>\<open>converters.ts\<close> holds an earlier \<^verbatim>\<open>convertAnatomyToTree\<close>, for the object
  shape only: it sorts the nodes by path before it builds the tree.  Its comparator calls
  \<^verbatim>\<open>String.prototype.localeCompare\<close>, a collation of the platform, which is a parameter
  \<open>lc\<close> here.
\<close>

record LegacyNode =
  l_name :: string
  l_type :: jsval
  l_depth :: nat
  l_path :: string
  l_children :: "nat list"

text \<open>One iteration of \<^verbatim>\<open>for (const nodeName in anatomyData)\<close>.\<close>

definition legacy_node :: "jsval \<Rightarrow> string \<Rightarrow> error + LegacyNode" where
  "legacy_node anatomyData nodeName =
     thenE (read_prop (js_get anatomyData nodeName) ''path'') (\<lambda>p.
       (case or_else p (JStr '''') of
          JStr s \<Rightarrow>
            Inr \<lparr>l_name = nodeName,
                 l_type = or_else (js_get (js_get anatomyData nodeName) ''type'') (JStr ''UNKNOWN''),
                 l_depth = length (split '' > '' s) - 1,
                 l_path = s,
                 l_children = []\<rparr>
        | _ \<Rightarrow> Inl TypeError))"

fun legacy_nodes :: "jsval \<Rightarrow> string list \<Rightarrow> error + LegacyNode list" where
  "legacy_nodes anatomyData [] = Inr []"
| "legacy_nodes anatomyData (k # ks) =
     thenE (legacy_node anatomyData k) (\<lambda>n.
     thenE (legacy_nodes anatomyData ks) (\<lambda>ns. Inr (n # ns)))"

text \<open>
  The comparator of \<^verbatim>\<open>nodes.sort\<close>, on the segments that remain to be compared;
  \<open>la\<close> and \<open>lb\<close> are \<^verbatim>\<open>aPath.length\<close> and \<^verbatim>\<open>bPath.length\<close>.
\<close>

fun compare_segments ::
  "(string \<Rightarrow> string \<Rightarrow> int) \<Rightarrow> nat \<Rightarrow> nat \<Rightarrow> string list \<Rightarrow> string list \<Rightarrow> int" where
  "compare_segments lc la lb (a # as) (b # bs) =
     (if a \<noteq> b then lc a b else compare_segments lc la lb as bs)"
| "compare_segments lc la lb as bs = int la - int lb"

definition compare_paths :: "(string \<Rightarrow> string \<Rightarrow> int) \<Rightarrow> string \<Rightarrow> string \<Rightarrow> int" where
  "compare_paths lc a b =
     (let aPath = split '' > '' a; bPath = split '' > '' b
      in compare_segments lc (length aPath) (length bPath) aPath bPath)"

text \<open>
  \<^verbatim>\<open>Array.prototype.sort\<close> is a stable sort.  With a consistent comparator its result is
  the one of any stable sort; insertion from the right is taken here.
\<close>

fun insert_sorted :: "('a \<Rightarrow> 'a \<Rightarrow> int) \<Rightarrow> 'a \<Rightarrow> 'a list \<Rightarrow> 'a list" where
  "insert_sorted cmp x [] = [x]"
| "insert_sorted cmp x (y # ys) =
     (if cmp x y \<le> 0 then x # y # ys else y # insert_sorted cmp x ys)"

definition js_sort :: "('a \<Rightarrow> 'a \<Rightarrow> int) \<Rightarrow> 'a list \<Rightarrow> 'a list" where
  "js_sort cmp xs = foldr (insert_sorted cmp) xs []"

definition sort_nodes :: "(string \<Rightarrow> string \<Rightarrow> int) \<Rightarrow> LegacyNode list \<Rightarrow> LegacyNode list" where
  "sort_nodes lc ns = js_sort (\<lambda>a b. compare_paths lc (l_path a) (l_path b)) ns"

record legacy_state =
  l_nodes :: "LegacyNode list"
  l_rootNodes :: "nat list"
  l_nodeMap :: "string \<Rightarrow> nat option"

text \<open>
  One iteration of \<^verbatim>\<open>for (const node of nodes)\<close>, for the node at address \<open>a\<close> of
  the sorted array.  A node whose parent is not in the map goes nowhere.
\<close>

definition legacy_place :: "legacy_state \<Rightarrow> nat \<Rightarrow> legacy_state" where
  "legacy_place st a =
     (let node = l_nodes st ! a;
          st1 = st\<lparr>l_nodeMap := (l_nodeMap st)(l_path node \<mapsto> a)\<rparr>;
          pathParts = split '' > '' (l_path node)
      in if length pathParts = 1 then st1\<lparr>l_rootNodes := l_rootNodes st1 @ [a]\<rparr>
         else (case l_nodeMap st1 (join '' > '' (butlast pathParts)) of
                 Some parent \<Rightarrow>
                   st1\<lparr>l_nodes := (l_nodes st1)[parent :=
                          (l_nodes st1 ! parent)\<lparr>l_children :=
                             l_children (l_nodes st1 ! parent) @ [a]\<rparr>]\<rparr>
               | None \<Rightarrow> st1))"

definition legacy_build :: "LegacyNode list \<Rightarrow> legacy_state" where
  "legacy_build ns =
     foldl legacy_place \<lparr>l_nodes = ns, l_rootNodes = [], l_nodeMap = (\<lambda>k. None)\<rparr>
       [0..<length ns]"

definition legacy_line :: "LegacyNode \<Rightarrow> string \<Rightarrow> bool \<Rightarrow> error + string" where
  "legacy_line node prefix' isLast =
     thenE (js_toString (l_type node)) (\<lambda>typeText.
       Inr (prefix' @ (if isLast then corner_glyph @ dash_glyph @ dash_glyph @ '' ''
                      else tee_glyph @ dash_glyph @ dash_glyph @ '' '')
            @ l_name node @ '' ['' @ typeText @ '']''))"

fun legacy_renderNode ::
    "nat \<Rightarrow> LegacyNode list \<Rightarrow> nat \<Rightarrow> string \<Rightarrow> bool \<Rightarrow> error + string list"
  and legacy_renderAll ::
    "nat \<Rightarrow> LegacyNode list \<Rightarrow> nat list \<Rightarrow> string \<Rightarrow> error + string list"
where
  "legacy_renderNode 0 store node prefix' isLast = Inl StackOverflow"
| "legacy_renderNode (Suc fuel) store node prefix' isLast =
     thenE (legacy_line (store ! node) prefix' isLast) (\<lambda>line.
     thenE (legacy_renderAll fuel store (l_children (store ! node))
              (prefix' @ (if isLast then ''    '' else bar_glyph @ ''   ''))) (\<lambda>below.
       Inr (line # below)))"
| "legacy_renderAll fuel store [] prefix' = Inr []"
| "legacy_renderAll fuel store (child # rest) prefix' =
     thenE (legacy_renderNode fuel store child prefix' (rest = [])) (\<lambda>first.
     thenE (legacy_renderAll fuel store rest prefix') (\<lambda>others. Inr (first @ others)))"

definition legacy_convertAnatomyToTree ::
  "(string \<Rightarrow> string \<Rightarrow> int) \<Rightarrow> nat \<Rightarrow> jsval \<Rightarrow> error + string" where
  "legacy_convertAnatomyToTree lc fuel anatomyData =
     (if \<not> truthy anatomyData \<or> typeof anatomyData \<noteq> ''object'' then Inr ''''
      else
        thenE (legacy_nodes anatomyData (map fst (own_entries anatomyData))) (\<lambda>nodes.
          let st = legacy_build (sort_nodes lc nodes) in
          thenE (legacy_renderAll fuel (l_nodes st) (l_rootNodes st) '''') (\<lambda>lines.
            Inr (join newline lines))))"

section \<open>Scalars of the nested-text format: \<^verbatim>\<open>formatYAMLValue\<close>\<close>

definition double_quote :: char where
  "double_quote = CHR 0x22"

definition backslash :: char where
  "backslash = CHR 0x5C"

text \<open>\<^verbatim>\<open>value.replace(/"/g, '\\"')\<close>\<close>

definition escape_quotes :: "string \<Rightarrow> string" where
  "escape_quotes s = concat (map (\<lambda>c. if c = double_quote then [backslash, double_quote] else [c]) s)"

text \<open>
  The branches for a string, a boolean and a number (\<^verbatim>\<open>value.toString()\<close>), and
  \<^verbatim>\<open>String(value)\<close> for every other value.
\<close>

definition formatYAMLValue :: "jsval \<Rightarrow> error + string" where
  "formatYAMLValue v =
     (case v of
        JStr s \<Rightarrow>
          (if CHR '':'' \<in> set s \<or> CHR ''#'' \<in> set s \<or> CHR 0x0A \<in> set s
              \<or> take 1 s = '' '' \<or> (s \<noteq> [] \<and> last s = CHR '' '')
           then Inr ([double_quote] @ escape_quotes s @ [double_quote])
           else Inr s)
      | JBool b \<Rightarrow> Inr (if b then ''true'' else ''false'')
      | JNum x \<Rightarrow> Inr (Number_toString x)
      | _ \<Rightarrow> js_toString v)"

section \<open>Property types in \<^verbatim>\<open>convertToTypeScript\<close> and \<^verbatim>\<open>convertToJSDoc\<close>\<close>

text \<open>
  \<^verbatim>\<open>prop.values ? prop.values.map((v: string) => `'${v}'`).join(sep) : 'string'\<close>.
  A value that is not an array has no \<^verbatim>\<open>map\<close> to call.
\<close>

fun quote_values :: "jsval list \<Rightarrow> error + string list" where
  "quote_values [] = Inr []"
| "quote_values (v # vs) =
     thenE (js_toString v) (\<lambda>str.
     thenE (quote_values vs) (\<lambda>others. Inr (([CHR 0x27] @ str @ [CHR 0x27]) # others)))"

definition enum_values :: "string \<Rightarrow> jsval \<Rightarrow> error + string" where
  "enum_values sep vals =
     (if truthy vals
      then (case vals of
              JArr vs \<Rightarrow> thenE (quote_values vs) (\<lambda>literals. Inr (join sep literals))
            | _ \<Rightarrow> Inl TypeError)
      else Inr ''string'')"

text \<open>The variable \<^verbatim>\<open>typeString\<close> of \<^verbatim>\<open>convertToTypeScript\<close> for one property.\<close>

definition ts_typeString :: "jsval \<Rightarrow> error + string" where
  "ts_typeString p =
     thenE (read_prop p ''type'') (\<lambda>t.
       if strict_eq t (JStr ''boolean'') then Inr ''boolean''
       else if strict_eq t (JStr ''string'') then Inr ''string''
       else if strict_eq t (JStr ''enum'') then enum_values '' | '' (js_get p ''values'')
       else if strict_eq t (JStr ''instance'') then Inr ''React.ReactNode''
       else if strict_eq t (JStr ''number'') then Inr ''number''
       else Inr ''any'')"

text \<open>The line \<^verbatim>\<open>`  ${propName}: ${typeString};\n`\<close>\<close>

definition ts_prop_line :: "string \<Rightarrow> jsval \<Rightarrow> error + string" where
  "ts_prop_line propName p =
     thenE (ts_typeString p) (\<lambda>typeString.
       Inr (''  '' @ propName @ '': '' @ typeString @ '';'' @ newline))"

text \<open>The variable \<^verbatim>\<open>typeString\<close> of \<^verbatim>\<open>convertToJSDoc\<close> for one property.\<close>

definition jsdoc_typeString :: "jsval \<Rightarrow> error + string" where
  "jsdoc_typeString p =
     thenE (read_prop p ''type'') (\<lambda>t.
       if strict_eq t (JStr ''boolean'') then Inr ''boolean''
       else if strict_eq t (JStr ''string'') then Inr ''string''
       else if strict_eq t (JStr ''enum'')
         then thenE (enum_values ''|'' (js_get p ''values'')) (\<lambda>values.
                Inr (''('' @ values @ '')''))
       else if strict_eq t (JStr ''instance'') then Inr ''ReactNode''
       else if strict_eq t (JStr ''number'') then Inr ''number''
       else Inr ''*'')"

text \<open>The line \<^verbatim>\<open>` * @property {${typeString}} ${propName}\n`\<close>\<close>

definition jsdoc_prop_line :: "string \<Rightarrow> jsval \<Rightarrow> error + string" where
  "jsdoc_prop_line propName p =
     thenE (jsdoc_typeString p) (\<lambda>typeString.
       Inr ('' * @property {'' @ typeString @ ''} '' @ propName @ newline))"

section \<open>Vocabulary of the properties\<close>

fun is_object :: "jsval \<Rightarrow> bool" where
  "is_object (JObj kvs) = True"
| "is_object v = False"

text \<open>An element record of the explicit-sequence shape, with its four fields.\<close>

definition element :: "string \<Rightarrow> string \<Rightarrow> string \<Rightarrow> string \<Rightarrow> jsval" where
  "element n t p pp =
     JObj [(''name'', JStr n), (''type'', JStr t), (''path'', JStr p), (''parentPath'', JStr pp)]"

text \<open>
  The reserved characters of the nested-text format, and a quoted scalar: wrapped in
  double quotes, every double quote inside preceded by a backslash.
\<close>

definition needs_quotes :: "string \<Rightarrow> bool" where
  "needs_quotes s =
     (CHR '':'' \<in> set s \<or> CHR ''#'' \<in> set s \<or> CHR 0x0A \<in> set s
      \<or> (s \<noteq> [] \<and> hd s = CHR '' '') \<or> (s \<noteq> [] \<and> last s = CHR '' ''))"

fun escaped :: "string \<Rightarrow> string" where
  "escaped [] = []"
| "escaped (c # cs) =
     (if c = CHR 0x22 then CHR 0x5C # CHR 0x22 # escaped cs else c # escaped cs)"

definition quoted :: "string \<Rightarrow> string" where
  "quoted s = CHR 0x22 # escaped s @ [CHR 0x22]"

text \<open>A literal between single quotes.\<close>

definition quote_literal :: "string \<Rightarrow> string" where
  "quote_literal v = CHR 0x27 # v @ [CHR 0x27]"

subsection \<open>The order of rendering\<close>

text \<open>
  The nodes in the order in which \<^verbatim>\<open>renderTree\<close> reaches them: the recursion of
  \<^verbatim>\<open>renderNode\<close> and of the two \<^verbatim>\<open>forEach\<close> loops, call by call, with the address
  of the node in place of the lines that the call pushes.
\<close>

fun visitNode :: "nat \<Rightarrow> TreeNode list \<Rightarrow> nat \<Rightarrow> error + nat list"
  and visitChildren :: "nat \<Rightarrow> TreeNode list \<Rightarrow> nat list \<Rightarrow> error + nat list"
where
  "visitNode 0 store node = Inl StackOverflow"
| "visitNode (Suc fuel) store node =
     thenE (visitChildren fuel store (children (store ! node))) (\<lambda>below. Inr (node # below))"
| "visitChildren fuel store [] = Inr []"
| "visitChildren fuel store (child # rest) =
     thenE (visitNode fuel store child) (\<lambda>first.
     thenE (visitChildren fuel store rest) (\<lambda>others. Inr (first @ others)))"

definition render_order :: "nat \<Rightarrow> TreeNode list \<times> nat list \<Rightarrow> error + nat list" where
  "render_order fuel forest = visitChildren fuel (fst forest) (snd forest)"

text \<open>
  The lines of the rendered text, node by node.  The lines of a node depend on how the
  node is reached: whether a blank line comes before it, and the prefix and the two
  flags with which \<^verbatim>\<open>renderNode\<close> is called.  \<open>lines_in_order\<close> is the text of nodes
  that are reached in a given order.
\<close>

type_synonym decoration = "bool \<times> string \<times> bool \<times> bool"

definition entry_lines :: "TreeNode \<Rightarrow> decoration \<Rightarrow> error + string list" where
  "entry_lines node d =
     (case d of (blank, prefix', isLast, isRoot) \<Rightarrow>
        thenE (node_lines node prefix' isLast isRoot) (\<lambda>own.
          Inr ((if blank then [''''] else []) @ own)))"

fun lines_in_order :: "TreeNode list \<Rightarrow> (nat \<times> decoration) list \<Rightarrow> error + string list" where
  "lines_in_order store [] = Inr []"
| "lines_in_order store (ad # rest) =
     thenE (entry_lines (store ! fst ad) (snd ad)) (\<lambda>first.
     thenE (lines_in_order store rest) (\<lambda>others. Inr (first @ others)))"

text \<open>
  A sequence of records is listed depth first when every record either is a root (its
  parent path is empty or names no record so far) or has for parent the record listed
  just before it or one of the ancestors of that record.  A path names the latest
  record that carries it, the record itself included; \<open>m\<close> is that assignment,
  \<open>branch\<close> holds the position of the record listed last and of its ancestors, and
  \<open>a\<close> is the position of the next record.
\<close>

fun depth_first_from :: "(jsval \<Rightarrow> nat option) \<Rightarrow> nat list \<Rightarrow> nat \<Rightarrow> jsval list \<Rightarrow> bool" where
  "depth_first_from m branch a [] = True"
| "depth_first_from m branch a (nodeData # rest) =
     (let m' = map_set m (or_else (js_get nodeData ''path'') (js_get nodeData ''name'')) a in
      if \<not> truthy (js_get nodeData ''parentPath'') then depth_first_from m' [a] (Suc a) rest
      else (case map_get m' (js_get nodeData ''parentPath'') of
              None \<Rightarrow> depth_first_from m' [a] (Suc a) rest
            | Some p \<Rightarrow>
                p \<in> set branch
                \<and> depth_first_from m' (a # dropWhile (\<lambda>q. q \<noteq> p) branch) (Suc a) rest))"

definition depth_first :: "jsval list \<Rightarrow> bool" where
  "depth_first xs = depth_first_from (\<lambda>k. None) [] 0 xs"

subsection \<open>The state of the builder\<close>

text \<open>
  The node that one iteration creates, the map after the iteration, and the two states
  in which the iteration can end.
\<close>

definition new_node :: "jsval \<Rightarrow> TreeNode" where
  "new_node x =
     \<lparr>name = js_get x ''name'',
      type = or_else (js_get x ''type'') (JStr ''UNKNOWN''),
      path = or_else (js_get x ''path'') (js_get x ''name''),
      parentPath = or_else (js_get x ''parentPath'') (JStr ''''),
      children = []\<rparr>"

definition new_map :: "build_state \<Rightarrow> jsval \<Rightarrow> jsval \<Rightarrow> nat option" where
  "new_map st x =
     map_set (nodesByPath st) (or_else (js_get x ''path'') (js_get x ''name''))
       (length (nodes st))"

definition as_root :: "build_state \<Rightarrow> jsval \<Rightarrow> build_state" where
  "as_root st x =
     st\<lparr>nodes := nodes st @ [new_node x], nodesByPath := new_map st x,
        rootNodes := rootNodes st @ [length (nodes st)]\<rparr>"

definition as_child :: "build_state \<Rightarrow> jsval \<Rightarrow> nat \<Rightarrow> build_state" where
  "as_child st x p =
     st\<lparr>nodes := push_child (nodes st @ [new_node x]) p (length (nodes st)),
        nodesByPath := new_map st x\<rparr>"

text \<open>
  The last sibling, its last child, and so on: the branch to which a record listed depth
  first is attached.
\<close>

fun chain :: "TreeNode list \<Rightarrow> nat list \<Rightarrow> nat list \<Rightarrow> bool" where
  "chain store cs [] = True"
| "chain store cs (a # as) = (cs \<noteq> [] \<and> last cs = a \<and> chain store (children (store ! a)) as)"

text \<open>
  What holds of the state while records listed depth first are added: the nodes are
  reached in the order of their addresses, and \<open>branch\<close> is the branch of the last one.
\<close>

definition well_listed :: "build_state \<Rightarrow> nat list \<Rightarrow> bool" where
  "well_listed st branch =
     (visitChildren (length (nodes st)) (nodes st) (rootNodes st) = Inr [0..<length (nodes st)]
      \<and> chain (nodes st) (rootNodes st) (rev branch)
      \<and> sorted_wrt (>) branch
      \<and> (\<forall>q \<in> set branch. q < length (nodes st)))"

subsection \<open>Trees and their rendering\<close>

text \<open>
  A tree of nodes, each with its name and type, and the addresses of a store that hold
  such a tree.
\<close>

datatype tree = Tree jsval jsval "tree list"

fun represents :: "TreeNode list \<Rightarrow> nat \<Rightarrow> tree \<Rightarrow> bool" where
  "represents store a (Tree nm ty ts) =
     (name (store ! a) = nm \<and> type (store ! a) = ty
      \<and> list_all2 (represents store) (children (store ! a)) ts)"

fun height :: "tree \<Rightarrow> nat" where
  "height (Tree nm ty ts) = Suc (foldr max (map height ts) 0)"

text \<open>
  A value is printable when its conversion to a string does not throw; \<open>text_of\<close> is
  the string.
\<close>

definition printable :: "jsval \<Rightarrow> bool" where
  "printable v = (case js_toString v of Inr str \<Rightarrow> True | Inl e \<Rightarrow> False)"

definition text_of :: "jsval \<Rightarrow> string" where
  "text_of v = (case js_toString v of Inr str \<Rightarrow> str | Inl e \<Rightarrow> '''')"

fun printable_tree :: "tree \<Rightarrow> bool" where
  "printable_tree (Tree nm ty ts) = (printable nm \<and> printable ty \<and> list_all printable_tree ts)"

text \<open>
  The rendering rules.  A node below a root is one line: the indentation, the connector,
  the name and the type between parentheses when there is one.  The indentation has one
  piece for every ancestor, the root first: three spaces below an ancestor that was the
  last of its siblings (the root counts as one), a bar and two spaces otherwise.
\<close>

definition indent :: "bool list \<Rightarrow> string" where
  "indent flags = concat (map (\<lambda>last. if last then ''   '' else bar_glyph @ ''  '') flags)"

definition connector :: "bool \<Rightarrow> string" where
  "connector isLast =
     (if isLast then corner_glyph @ dash_glyph @ '' '' else tee_glyph @ dash_glyph @ '' '')"

definition type_suffix :: "jsval \<Rightarrow> string" where
  "type_suffix ty = (if truthy ty then '' ('' @ text_of ty @ '')'' else '''')"

fun branch_lines :: "bool list \<Rightarrow> bool \<Rightarrow> tree \<Rightarrow> string list"
  and siblings_lines :: "bool list \<Rightarrow> tree list \<Rightarrow> string list"
where
  "branch_lines flags isLast (Tree nm ty ts) =
     (indent flags @ connector isLast @ text_of nm @ type_suffix ty)
     # siblings_lines (flags @ [isLast]) ts"
| "siblings_lines flags [] = []"
| "siblings_lines flags (t # ts) = branch_lines flags (ts = []) t @ siblings_lines flags ts"

text \<open>A root is a header line with its name and an indented line with its type.\<close>

fun root_lines :: "tree \<Rightarrow> string list" where
  "root_lines (Tree nm ty ts) =
     [package_glyph @ '' '' @ text_of nm,
      ''   '' @ corner_glyph @ dash_glyph @ '' type: '' @ text_of ty]
     @ siblings_lines [True] ts"

text \<open>One blank line separates two roots.\<close>

fun forest_lines :: "tree list \<Rightarrow> string list" where
  "forest_lines [] = []"
| "forest_lines [t] = root_lines t"
| "forest_lines (t # u # us) = root_lines t @ [''''] @ forest_lines (u # us)"

subsection \<open>Anatomies and their groups\<close>

text \<open>An element record: name, type, path and parent path.\<close>

type_synonym element_record = "string \<times> string \<times> string \<times> string"

definition encode :: "element_record \<Rightarrow> jsval" where
  "encode r = (case r of (n, t, p, pp) \<Rightarrow> element n t p pp)"

definition sequence :: "element_record list \<Rightarrow> jsval" where
  "sequence rs = JArr (map encode rs)"

text \<open>
  An entry of a flat mapping: the name of the element (the key), its type and its path.
  The mapping lists its entries in the order in which \<^verbatim>\<open>Object.keys\<close> enumerates them.
\<close>

type_synonym entry = "string \<times> string \<times> string"

definition flat_value :: "entry \<Rightarrow> jsval" where
  "flat_value e = (case e of (n, t, p) \<Rightarrow> JObj [(''type'', JStr t), (''path'', JStr p)])"

definition flat_mapping :: "entry list \<Rightarrow> jsval" where
  "flat_mapping es = JObj (map (\<lambda>e. (fst e, flat_value e)) es)"

text \<open>
  An anatomy in one of its two shapes, an explicit sequence or a flat mapping.  The keys
  of an object are different from each other.
\<close>

datatype anatomy = Sequence "element_record list" | Mapping "entry list"

fun encode_anatomy :: "anatomy \<Rightarrow> jsval" where
  "encode_anatomy (Sequence rs) = sequence rs"
| "encode_anatomy (Mapping es) = flat_mapping es"

fun well_keyed :: "anatomy \<Rightarrow> bool" where
  "well_keyed (Sequence rs) = True"
| "well_keyed (Mapping es) = distinct (map fst es)"

type_synonym variant = "string \<times> anatomy"

text \<open>A mapping from variant names to anatomies.\<close>

definition variant_mapping :: "variant list \<Rightarrow> jsval" where
  "variant_mapping vs = JObj (map (\<lambda>v. (fst v, encode_anatomy (snd v))) vs)"

text \<open>
  The elements of an anatomy: those of the array, or the values of the properties of the
  object in the order of its keys.
\<close>

fun elements_of :: "jsval \<Rightarrow> jsval list" where
  "elements_of (JArr xs) = xs"
| "elements_of (JObj kvs) = map snd kvs"
| "elements_of v = []"

fun distinct_keys :: "jsval \<Rightarrow> bool" where
  "distinct_keys (JObj kvs) = distinct (map fst kvs)"
| "distinct_keys v = True"

text \<open>
  The triple of an element, whatever the order of its keys and whatever else it holds,
  and equality of two lists of elements: the same length and the same triple at every
  position.  A field is plain when it is a primitive value that is equal to itself.
\<close>

definition triple_of :: "jsval \<Rightarrow> jsval \<times> jsval \<times> jsval" where
  "triple_of x = (js_get x ''name'', js_get x ''type'', js_get x ''path'')"

definition plain_field :: "jsval \<Rightarrow> bool" where
  "plain_field v = (is_primitive v \<and> v \<noteq> JNum NaN)"

definition plain_element :: "jsval \<Rightarrow> bool" where
  "plain_element x =
     (x \<noteq> JUndefined \<and> x \<noteq> JNull \<and> plain_field (js_get x ''name'')
      \<and> plain_field (js_get x ''type'') \<and> plain_field (js_get x ''path''))"

definition same_triples :: "jsval list \<Rightarrow> jsval list \<Rightarrow> bool" where
  "same_triples xs ys =
     (length xs = length ys \<and> list_all2 (\<lambda>x y. triple_of x = triple_of y) xs ys)"

definition same_shape :: "anatomy \<Rightarrow> anatomy \<Rightarrow> bool" where
  "same_shape a b =
     same_triples (elements_of (encode_anatomy a)) (elements_of (encode_anatomy b))"

text \<open>
  A variant joins the first group whose first member has its shape; when there is none
  it opens a new group after the others.
\<close>

fun place :: "variant \<Rightarrow> variant list list \<Rightarrow> variant list list" where
  "place v [] = [[v]]"
| "place v (g # gs) =
     (if same_shape (snd v) (snd (hd g)) then (g @ [v]) # gs else g # place v gs)"

definition grouping :: "variant list \<Rightarrow> variant list list" where
  "grouping vs = foldl (\<lambda>gs v. place v gs) [] vs"

text \<open>The entry of \<^verbatim>\<open>anatomyGroups\<close> for a group: its signature and its names.\<close>

definition as_group :: "variant list \<Rightarrow> jsval \<times> string list" where
  "as_group g = (encode_anatomy (snd (hd g)), map fst g)"

text \<open>
  The text for the groups: a header that names the variants of the group, a blank line
  and the tree of the group; before every group but the first a blank line, a rule of
  sixty dashes and a blank line.
\<close>

fun header_of :: "string list \<Rightarrow> string" where
  "header_of [x] = ''[Variant: '' @ x @ '']''"
| "header_of xs = ''[Variants: '' @ join '', '' xs @ '']''"

definition group_block :: "bool \<Rightarrow> string list \<Rightarrow> string \<Rightarrow> string list" where
  "group_block first members tree =
     (if first then [] else ['''', concat (replicate 60 dash_glyph), ''''])
     @ [header_of members, '''', tree]"

fun group_blocks :: "nat \<Rightarrow> string list list \<Rightarrow> string list \<Rightarrow> string list" where
  "group_blocks i (g # gs) (t # ts) = group_block (i = 0) g t @ group_blocks (Suc i) gs ts"
| "group_blocks i gs ts = []"

subsection \<open>Flat mappings and the order of paths\<close>



text \<open>The node that the earlier converter creates for an entry.\<close>

definition legacy_record :: "entry \<Rightarrow> LegacyNode" where
  "legacy_record e =
     (case e of (n, t, p) \<Rightarrow>
        \<lparr>l_name = n, l_type = or_else (JStr t) (JStr ''UNKNOWN''),
         l_depth = length (split '' > '' p) - 1, l_path = p, l_children = []\<rparr>)"

text \<open>
  Siblings are in the order of the input when the roots and the children of every node
  are listed by increasing address.
\<close>

definition in_order :: "build_state \<Rightarrow> bool" where
  "in_order st =
     (sorted_wrt (<) (rootNodes st) \<and> (\<forall>r \<in> set (rootNodes st). r < length (nodes st))
      \<and> (\<forall>n \<in> set (nodes st).
            sorted_wrt (<) (children n) \<and> (\<forall>c \<in> set (children n). c < length (nodes st))))"

definition ordered_siblings :: "legacy_state \<Rightarrow> nat \<Rightarrow> bool" where
  "ordered_siblings st i =
     (sorted_wrt (<) (l_rootNodes st) \<and> (\<forall>r \<in> set (l_rootNodes st). r < i)
      \<and> (\<forall>a < length (l_nodes st).
            sorted_wrt (<) (l_children (l_nodes st ! a))
            \<and> (\<forall>c \<in> set (l_children (l_nodes st ! a)). c < i)))"

text \<open>
  The order of paths by their segments: the first segment in which two paths differ
  decides, by the collation \<open>lc\<close>; a path that is the beginning of another one comes
  first.
\<close>

fun segments_le :: "(string \<Rightarrow> string \<Rightarrow> int) \<Rightarrow> string list \<Rightarrow> string list \<Rightarrow> bool" where
  "segments_le lc [] bs = True"
| "segments_le lc (a # as) [] = False"
| "segments_le lc (a # as) (b # bs) = (if a = b then segments_le lc as bs else lc a b < 0)"

definition path_le :: "(string \<Rightarrow> string \<Rightarrow> int) \<Rightarrow> string \<Rightarrow> string \<Rightarrow> bool" where
  "path_le lc a b = segments_le lc (split '' > '' a) (split '' > '' b)"

text \<open>The paths of a list of siblings, in the order of the list.\<close>

definition sibling_paths :: "LegacyNode list \<Rightarrow> nat list \<Rightarrow> string list" where
  "sibling_paths store cs = map (\<lambda>c. l_path (store ! c)) cs"

text \<open>A collation for the examples: strings compared byte by byte.\<close>

fun code_unit_order :: "string \<Rightarrow> string \<Rightarrow> int" where
  "code_unit_order [] [] = 0"
| "code_unit_order [] (b # bs) = - 1"
| "code_unit_order (a # as) [] = 1"
| "code_unit_order (a # as) (b # bs) =
     (if a = b then code_unit_order as bs
      else if (of_char a :: nat) < of_char b then - 1 else 1)"

subsection \<open>Example inputs\<close>

text \<open>A frame with a label and an icon, as a store and as a tree.\<close>

definition frame_store :: "TreeNode list" where
  "frame_store =
     [\<lparr>name = JStr ''Frame'', type = JStr ''FRAME'', path = JStr ''Frame'',
       parentPath = JStr '''', children = [1, 2]\<rparr>,
      \<lparr>name = JStr ''Label'', type = JStr ''TEXT'', path = JStr ''Frame > Label'',
       parentPath = JStr ''Frame'', children = []\<rparr>,
      \<lparr>name = JStr ''Icon'', type = JStr ''VECTOR'', path = JStr ''Frame > Icon'',
       parentPath = JStr ''Frame'', children = []\<rparr>]"

definition frame_tree :: tree where
  "frame_tree =
     Tree (JStr ''Frame'') (JStr ''FRAME'')
       [Tree (JStr ''Label'') (JStr ''TEXT'') [], Tree (JStr ''Icon'') (JStr ''VECTOR'') []]"

text \<open>
  Three variants: the first two differ in a parent path only, the third has one more
  element.
\<close>

definition three_variants :: "variant list" where
  "three_variants =
     [(''Default'', Sequence [(''Frame'', ''FRAME'', ''Frame'', '''')]),
      (''Hover'', Sequence [(''Frame'', ''FRAME'', ''Frame'', ''Canvas'')]),
      (''Disabled'', Sequence [(''Frame'', ''FRAME'', ''Frame'', ''''),
                               (''Label'', ''TEXT'', ''Frame > Label'', ''Frame'')])]"

definition two_variants :: "variant list" where
  "two_variants =
     [(''Default'', Sequence [(''Frame'', ''FRAME'', ''Frame'', '''')]),
      (''Hover'', Sequence [(''Frame'', ''FRAME'', ''Frame'', ''Canvas'')])]"

text \<open>
  Four variants, three of them flat mappings: the second has the elements of the first
  under other names, the third has them under swapped keys; the fourth is a sequence.
\<close>

definition mapping_variants :: "variant list" where
  "mapping_variants =
     [(''Default'', Mapping [(''Frame'', ''FRAME'', ''Frame''),
                             (''Label'', ''TEXT'', ''Frame > Label'')]),
      (''Hover'', Mapping [(''Box'', ''FRAME'', ''Frame''),
                           (''Text'', ''TEXT'', ''Frame > Label'')]),
      (''Pressed'', Mapping [(''Label'', ''TEXT'', ''Frame > Label''),
                             (''Frame'', ''FRAME'', ''Frame'')]),
      (''Disabled'', Sequence [(''Frame'', ''FRAME'', ''Frame'', '''')])]"

definition frame_text :: string where
  "frame_text = join newline
     [package_glyph @ '' Frame'', ''   '' @ corner_glyph @ dash_glyph @ '' type: FRAME'']"

definition frame_label_text :: string where
  "frame_label_text = join newline
     [package_glyph @ '' Frame'', ''   '' @ corner_glyph @ dash_glyph @ '' type: FRAME'',
      ''   '' @ corner_glyph @ dash_glyph @ '' Label (TEXT)'']"

text \<open>Three records, the child of the first listed after the second root.\<close>

definition out_of_order :: jsval where
  "out_of_order =
     JArr [element ''A'' ''FRAME'' ''A'' '''', element ''B'' ''FRAME'' ''B'' '''',
           element ''C'' ''TEXT'' ''A > C'' ''A'']"

text \<open>The records of a frame with a label and an icon, listed depth first.\<close>

definition frame_records :: "jsval list" where
  "frame_records =
     [element ''Frame'' ''FRAME'' ''Frame'' '''',
      element ''Label'' ''TEXT'' ''Frame > Label'' ''Frame'',
      element ''Icon'' ''VECTOR'' ''Frame > Icon'' ''Frame'']"

text \<open>A record that names its own path as its parent.\<close>

definition self_parent :: jsval where
  "self_parent = JArr [element ''A'' ''FRAME'' ''A'' ''A'']"

text \<open>A flat mapping whose only record lies below a frame that is not listed.\<close>

definition lone_label :: jsval where
  "lone_label =
     JObj [(''Label'', JObj [(''type'', JStr ''TEXT''), (''path'', JStr ''Frame > Label'')])]"

definition size_prop :: "(string \<times> jsval) list" where
  "size_prop = [(''type'', JStr ''enum''), (''values'', JArr [JStr ''sm'', JStr ''md'', JStr ''lg''])]"

definition open_enum_prop :: "(string \<times> jsval) list" where
  "open_enum_prop = [(''type'', JStr ''enum'')]"

text \<open>A flat mapping that lists the label of a frame before its icon.\<close>

definition frame_entries :: "entry list" where
  "frame_entries =
     [(''Frame'', ''FRAME'', ''Frame''), (''Label'', ''TEXT'', ''Frame > Label''),
      (''Icon'', ''VECTOR'', ''Frame > Icon'')]"

text \<open>
  A mapping whose first value has neither a type nor a path and whose second value is an
  anatomy sequence.
\<close>

definition bare_first :: jsval where
  "bare_first =
     JObj [(''Default'', JObj []),
           (''Hover'', sequence [(''Frame'', ''FRAME'', ''Frame'', '''')])]"

section \<open>Exceptions and string conversion\<close>

lemma thenE_Inr [simp]: "thenE (Inr x) f = f x"
  by (simp add: thenE_def)

lemma thenE_Inl [simp]: "thenE (Inl e) f = Inl e"
  by (simp add: thenE_def)

lemma js_toString_error:
  "js_toString v = Inl e \<Longrightarrow> e = TypeError"
  "join_elements vs = Inl e \<Longrightarrow> e = TypeError"
  by (induction v and vs rule: js_toString_join_elements.induct)
     (auto simp: thenE_def split: sum.splits if_splits)

lemma js_toString_text:
  "js_toString v = (if printable v then Inr (text_of v) else Inl TypeError)"
  using js_toString_error(1) [of v]
  by (cases "js_toString v") (simp_all add: printable_def text_of_def)

lemma falsy_printable: "\<not> truthy v \<Longrightarrow> printable v"
  by (cases v) (simp_all add: printable_def)

lemma printable_string [simp]: "printable (JStr s)" "text_of (JStr s) = s"
  by (simp_all add: printable_def text_of_def)

section \<open>Absent and malformed input\<close>

text \<open>
  Claim C9.  For every input that is absent (null or undefined) or not object-like (a
  boolean, a number, a string), \<^verbatim>\<open>convertAnatomyToTree\<close> returns the empty string: it
  returns, whatever the bound on the recursion depth, and it does not throw.
\<close>

theorem non_object_input_gives_empty_string:
  "is_primitive anatomyData \<Longrightarrow> convertAnatomyToTree fuel anatomyData = Inr ''''"
  by (cases anatomyData) (simp_all add: convertAnatomyToTree_def)

theorem non_object_input_gives_empty_string_witness:
  "is_primitive (JStr ''Frame'') \<and> convertAnatomyToTree 0 (JStr ''Frame'') = Inr ''''"
  using non_object_input_gives_empty_string [of "JStr ''Frame''" 0] by simp

section \<open>Detection of variant-based input\<close>

lemma isVariantBased_iff:
  "isVariantBased v \<longleftrightarrow>
     isArray v \<or> (is_object v \<and> js_get v ''type'' = JUndefined \<and> js_get v ''path'' = JUndefined)"
  by (cases v) (auto simp: isVariantBased_def strict_eq_def)

lemma own_entries_array:
  "own_entries (JArr (x # xs)) = (decimal 0, x) # zip (map decimal [Suc 0..<Suc (length xs)]) xs"
proof -
  have "[0..<length (x # xs)] = 0 # [Suc 0..<Suc (length xs)]"
    by (simp only: length_Cons upt_conv_Cons [of 0 "Suc (length xs)"] zero_less_Suc)
  then show ?thesis by (simp only: own_entries.simps list.map zip_Cons_Cons)
qed

lemma first_value_array: "first_value (JArr (x # xs)) = x"
  by (simp only: first_value_def own_entries_array first_name_def js_get_def list.map fst_conv
      list.case map_of.simps fun_upd_same snd_conv option.case)

lemma first_value_object: "first_value (JObj ((k, v) # rest)) = v"
  by (simp add: first_value_def first_name_def js_get_def)

lemma first_value_empty: "first_value (JObj []) = JUndefined" "first_value (JArr []) = JUndefined"
  by (simp_all add: first_value_def first_name_def js_get_def)

lemma bare_first_variants:
  "render_variants 3 bare_first
     = Inr (join newline
         [''[Variant: Default]'', '''', '''',
          '''', concat (replicate 60 dash_glyph), '''',
          ''[Variant: Hover]'', '''', frame_text])"
  by code_simp

lemma bare_first_single: "render_single 3 bare_first = Inl TypeError"
  by code_simp

lemma frame_entries_single:
  "render_single 3 (flat_mapping frame_entries)
     = Inr (join newline
         [package_glyph @ '' Frame'',
          ''   '' @ corner_glyph @ dash_glyph @ '' type: FRAME'',
          ''   '' @ tee_glyph @ dash_glyph @ '' Label (TEXT)'',
          ''   '' @ corner_glyph @ dash_glyph @ '' Icon (VECTOR)''])"
  by code_simp

lemma frame_entries_variants: "render_variants 3 (flat_mapping frame_entries) = Inl TypeError"
  by code_simp

text \<open>
  Claim C10.  The converter decides from the value of the first key alone, whatever the
  other keys hold: an object whose first property has the value \<open>v\<close>, or an array
  whose first element is \<open>v\<close>, is processed as a mapping from variant names to
  anatomies exactly when \<open>v\<close> is an array, or an object that has neither a \<^verbatim>\<open>type\<close>
  nor a \<^verbatim>\<open>path\<close>; otherwise, and when there is no first key, it is processed as a
  single anatomy.  So a flat mapping whose first record omits both fields is processed
  as variant-based.
\<close>

theorem variant_detection:
  "convertAnatomyToTree fuel (JObj ((k, v) # rest)) =
     (if isArray v \<or> (is_object v \<and> js_get v ''type'' = JUndefined
                                  \<and> js_get v ''path'' = JUndefined)
      then render_variants fuel (JObj ((k, v) # rest))
      else render_single fuel (JObj ((k, v) # rest)))
   \<and> convertAnatomyToTree fuel (JArr (v # others)) =
     (if isArray v \<or> (is_object v \<and> js_get v ''type'' = JUndefined
                                  \<and> js_get v ''path'' = JUndefined)
      then render_variants fuel (JArr (v # others))
      else render_single fuel (JArr (v # others)))
   \<and> convertAnatomyToTree fuel (JObj []) = render_single fuel (JObj [])
   \<and> convertAnatomyToTree fuel (JArr []) = render_single fuel (JArr [])"
  by (simp add: convertAnatomyToTree_def isVariantBased_iff first_value_object
      first_value_array first_value_empty)

theorem variant_detection_witness:
  "convertAnatomyToTree 3 bare_first
     = Inr (join newline
         [''[Variant: Default]'', '''', '''',
          '''', concat (replicate 60 dash_glyph), '''',
          ''[Variant: Hover]'', '''', frame_text])
   \<and> render_single 3 bare_first = Inl TypeError
   \<and> convertAnatomyToTree 3 (flat_mapping frame_entries)
     = Inr (join newline
         [package_glyph @ '' Frame'',
          ''   '' @ corner_glyph @ dash_glyph @ '' type: FRAME'',
          ''   '' @ tee_glyph @ dash_glyph @ '' Label (TEXT)'',
          ''   '' @ corner_glyph @ dash_glyph @ '' Icon (VECTOR)''])
   \<and> render_variants 3 (flat_mapping frame_entries) = Inl TypeError"
proof -
  have "bare_first = JObj ((''Default'', JObj [])
          # [(''Hover'', sequence [(''Frame'', ''FRAME'', ''Frame'', '''')])])"
    by (simp add: bare_first_def)
  with variant_detection [of 3 "''Default''" "JObj []"
      "[(''Hover'', sequence [(''Frame'', ''FRAME'', ''Frame'', '''')])]" "[]"]
  have "convertAnatomyToTree 3 bare_first = render_variants 3 bare_first"
    by (simp add: js_get_def)
  moreover have "flat_mapping frame_entries
     = JObj ((''Frame'', JObj [(''type'', JStr ''FRAME''), (''path'', JStr ''Frame'')])
          # [(''Label'', JObj [(''type'', JStr ''TEXT''), (''path'', JStr ''Frame > Label'')]),
             (''Icon'', JObj [(''type'', JStr ''VECTOR''), (''path'', JStr ''Frame > Icon'')])])"
    by (simp add: flat_mapping_def frame_entries_def flat_value_def)
  with variant_detection [of 3 "''Frame''"
      "JObj [(''type'', JStr ''FRAME''), (''path'', JStr ''Frame'')]"
      "[(''Label'', JObj [(''type'', JStr ''TEXT''), (''path'', JStr ''Frame > Label'')]),
        (''Icon'', JObj [(''type'', JStr ''VECTOR''), (''path'', JStr ''Frame > Icon'')])]" "[]"]
  have "convertAnatomyToTree 3 (flat_mapping frame_entries)
          = render_single 3 (flat_mapping frame_entries)"
    by (simp add: js_get_def)
  ultimately show ?thesis
    by (simp add: bare_first_variants bare_first_single frame_entries_single
        frame_entries_variants)
qed

section \<open>Quoting of scalars\<close>

lemma escape_quotes_escaped: "escape_quotes s = escaped s"
  by (induction s) (simp_all add: escape_quotes_def double_quote_def backslash_def)

lemma length_escaped: "length s \<le> length (escaped s)"
  by (induction s) simp_all

lemma quoted_neq: "quoted s \<noteq> s"
proof
  assume "quoted s = s"
  then have "length (quoted s) = length s" by simp
  with length_escaped [of s] show False by (simp add: quoted_def)
qed

lemma format_string:
  "formatYAMLValue (JStr s) = Inr (if needs_quotes s then quoted s else s)"
  by (cases s)
     (auto simp: formatYAMLValue_def needs_quotes_def quoted_def escape_quotes_escaped
        double_quote_def)

lemma decimal_times_ten: "0 < n \<Longrightarrow> decimal (10 * n) = decimal n @ ''0''"
  by (subst decimal.simps) simp

lemma decimal_shift: "0 < s \<Longrightarrow> decimal (s * 10 ^ e) = decimal s @ replicate e (CHR ''0'')"
proof (induction e)
  case 0
  then show ?case by simp
next
  case (Suc e)
  then have "decimal (10 * (s * 10 ^ e)) = decimal (s * 10 ^ e) @ ''0''"
    by (intro decimal_times_ten) simp
  with Suc show ?case by (simp add: mult.assoc mult.left_commute replicate_append_same)
qed

lemma significand_positive: "0 < significand q r"
  by (cases r) (simp_all add: significand_def)

lemma integer_toString:
  assumes "0 \<le> e" and "int (length (decimal s)) + e \<le> 21" and "0 < s"
  shows "finite_toString s e = decimal (s * 10 ^ nat e)"
  using assms by (simp add: finite_toString_def Let_def decimal_shift)

lemma number_examples:
  "Number_toString (Finite False 4 D2 0) = ''42''"
  "Number_toString (Finite True 1 D5 (- 1)) = ''-1.5''"
  "Number_toString (Finite False 0 D1 21) = ''1e+21''"
  "Number_toString (Finite False 12 D3 (- 8)) = ''0.00000123''"
  "Number_toString (Finite False 0 D1 (- 7)) = ''1e-7''"
  "decimal (significand 4 D2) = ''42''"
  by code_simp+

text \<open>
  Claim C8.  \<^verbatim>\<open>formatYAMLValue\<close> emits a string between double quotes, every double
  quote inside it escaped, if and only if the string contains a colon, a hash or a
  newline, or starts or ends with a space; it emits every other string as it is, a
  boolean as \<^verbatim>\<open>true\<close> or \<^verbatim>\<open>false\<close>, and a number as \<^verbatim>\<open>Number::toString\<close> writes it in
  radix ten, without quotes: an integer below \<open>10\<^sup>2\<^sup>1\<close> as its decimal digits.
\<close>

theorem yaml_scalar_quoting:
  "formatYAMLValue (JStr s) = Inr (if needs_quotes s then quoted s else s)
   \<and> (formatYAMLValue (JStr s) = Inr (quoted s)) = needs_quotes s
   \<and> formatYAMLValue (JBool b) = Inr (if b then ''true'' else ''false'')
   \<and> formatYAMLValue (JNum x) = Inr (Number_toString x)
   \<and> (0 \<le> sint e \<and> int (length (decimal (significand q r))) + sint e \<le> 21 \<longrightarrow>
        formatYAMLValue (JNum (Finite negative q r e))
          = Inr ((if negative then ''-'' else '''')
                 @ decimal (significand q r * 10 ^ nat (sint e))))"
  using quoted_neq [of s] integer_toString [of "sint e" "significand q r"]
    significand_positive [of q r]
  by (simp add: format_string) (simp add: formatYAMLValue_def)

theorem yaml_scalar_quoting_witness:
  "formatYAMLValue (JStr ''a: b'') = Inr (quoted ''a: b'')
   \<and> needs_quotes ''a: b''
   \<and> formatYAMLValue (JStr ''plain'') = Inr ''plain''
   \<and> formatYAMLValue (JBool True) = Inr ''true''
   \<and> formatYAMLValue (JNum (Finite False 4 D2 0)) = Inr ''42''
   \<and> formatYAMLValue (JNum (Finite True 1 D5 (- 1))) = Inr ''-1.5''
   \<and> formatYAMLValue (JNum (Finite False 0 D1 21)) = Inr ''1e+21''"
  using yaml_scalar_quoting [of "''a: b''" True "Finite True 1 D5 (- 1)" 0 4 D2 False]
    yaml_scalar_quoting [of "''plain''" True "Finite False 0 D1 21" 0 4 D2 False]
  by (simp add: needs_quotes_def number_examples del: Number_toString.simps)

section \<open>Types of enum properties\<close>

lemma quote_values_strings: "quote_values (map JStr vs) = Inr (map quote_literal vs)"
  by (induction vs) (simp_all add: quote_literal_def)

lemma enum_values_strings:
  "enum_values sep (JArr (map JStr vs)) = Inr (join sep (map quote_literal vs))"
  by (simp add: enum_values_def quote_values_strings)

lemma enum_values_absent: "enum_values sep JUndefined = Inr ''string''"
  by (simp add: enum_values_def)

text \<open>
  Claim C7.  For a property of kind \<^verbatim>\<open>enum\<close> with a list of values,
  \<^verbatim>\<open>convertToTypeScript\<close> emits as its type the single-quoted values joined by
  \<^verbatim>\<open>' | '\<close>, and \<^verbatim>\<open>convertToJSDoc\<close> emits the same literals joined by \<^verbatim>\<open>'|'\<close>
  between parentheses.  Without a list of values the list gives way to \<^verbatim>\<open>string\<close>, which
  the documentation block still writes between its parentheses.
\<close>

theorem enum_prop_types:
  assumes "map_of props ''type'' = Some (JStr ''enum'')"
  shows "(map_of props ''values'' = Some (JArr (map JStr vs)) \<longrightarrow>
            ts_typeString (JObj props) = Inr (join '' | '' (map quote_literal vs))
            \<and> ts_prop_line propName (JObj props)
                = Inr (''  '' @ propName @ '': '' @ join '' | '' (map quote_literal vs)
                       @ '';'' @ newline)
            \<and> jsdoc_typeString (JObj props)
                = Inr (''('' @ join ''|'' (map quote_literal vs) @ '')'')
            \<and> jsdoc_prop_line propName (JObj props)
                = Inr ('' * @property {('' @ join ''|'' (map quote_literal vs) @ '')} ''
                       @ propName @ newline))
       \<and> (map_of props ''values'' = None \<longrightarrow>
            ts_typeString (JObj props) = Inr ''string''
            \<and> jsdoc_typeString (JObj props) = Inr ''(string)'')"
  using assms
  by (simp add: ts_typeString_def jsdoc_typeString_def ts_prop_line_def jsdoc_prop_line_def
      read_prop_def js_get_def thenE_def strict_eq_def enum_values_strings enum_values_absent)

theorem enum_prop_types_witness:
  "map_of size_prop ''type'' = Some (JStr ''enum'')
   \<and> map_of size_prop ''values'' = Some (JArr (map JStr [''sm'', ''md'', ''lg'']))
   \<and> ts_typeString (JObj size_prop) = Inr (quote_literal ''sm'' @ '' | '' @ quote_literal ''md''
        @ '' | '' @ quote_literal ''lg'')
   \<and> jsdoc_typeString (JObj size_prop) = Inr (''('' @ quote_literal ''sm'' @ ''|''
        @ quote_literal ''md'' @ ''|'' @ quote_literal ''lg'' @ '')'')
   \<and> map_of open_enum_prop ''type'' = Some (JStr ''enum'')
   \<and> map_of open_enum_prop ''values'' = None
   \<and> ts_typeString (JObj open_enum_prop) = Inr ''string''
   \<and> jsdoc_typeString (JObj open_enum_prop) = Inr ''(string)''"
  using enum_prop_types [of size_prop "[''sm'', ''md'', ''lg'']" "''size''"]
    enum_prop_types [of open_enum_prop "[]" "''size''"]
  by (simp add: size_prop_def open_enum_prop_def)

section \<open>Records without a parent\<close>

lemma self_parent_not_variant: "isVariantBased (first_value self_parent) = False"
  by code_simp

lemma self_parent_build:
  "buildTreeFromAnatomy self_parent =
     Inr ([\<lparr>name = JStr ''A'', type = JStr ''FRAME'', path = JStr ''A'', parentPath = JStr ''A'',
            children = [0]\<rparr>], [])"
  by code_simp

lemma lone_label_nodes:
  "legacy_nodes lone_label (map fst (own_entries lone_label)) =
     Inr [\<lparr>l_name = ''Label'', l_type = JStr ''TEXT'', l_depth = 1, l_path = ''Frame > Label'',
           l_children = []\<rparr>]"
  by code_simp

lemma lone_label_build:
  "l_rootNodes (legacy_build [\<lparr>l_name = ''Label'', l_type = JStr ''TEXT'', l_depth = 1,
      l_path = ''Frame > Label'', l_children = []\<rparr>]) = []"
  by code_simp

text \<open>
  Claim C3.  A record whose parent path is not the path of any earlier record should
  become a root.  The record of \<open>self_parent\<close> is the first of its sequence, yet the
  builder finds the record itself under its parent path, makes the node a child of
  itself and leaves the list of roots empty: nothing is rendered.  The earlier converter
  leaves the record of \<open>lone_label\<close> out as well, because it has no branch for a parent
  that is not in the map.
\<close>

theorem records_without_parent_are_dropped:
  "buildTreeFromAnatomy self_parent =
     Inr ([\<lparr>name = JStr ''A'', type = JStr ''FRAME'', path = JStr ''A'', parentPath = JStr ''A'',
            children = [0]\<rparr>], [])
   \<and> convertAnatomyToTree fuel self_parent = Inr ''''
   \<and> legacy_convertAnatomyToTree lc fuel lone_label = Inr ''''"
proof (intro conjI)
  show "convertAnatomyToTree fuel self_parent = Inr ''''"
    using self_parent_not_variant self_parent_build
    by (simp add: convertAnatomyToTree_def render_single_def renderTree_def thenE_def
        self_parent_def)
  show "legacy_convertAnatomyToTree lc fuel lone_label = Inr ''''"
    using lone_label_nodes lone_label_build
    by (simp add: legacy_convertAnatomyToTree_def thenE_def sort_nodes_def js_sort_def
        lone_label_def Let_def)
qed (rule self_parent_build)

theorem records_without_parent_are_dropped_witness:
  "convertAnatomyToTree 5 self_parent = Inr ''''
   \<and> legacy_convertAnatomyToTree (\<lambda>a b. 0) 5 lone_label = Inr ''''"
  using records_without_parent_are_dropped [of 5 "\<lambda>a b. 0"] by simp

section \<open>The tree renderer\<close>

lemma height_member: "t \<in> set ts \<Longrightarrow> height t \<le> foldr max (map height ts) 0"
  by (induction ts) auto

lemma indent_snoc: "indent (flags @ [isLast]) = child_prefix (indent flags) isLast False"
  by (simp add: indent_def child_prefix_def)

lemma node_lines_branch:
  "node_lines node prefix' isLast False =
     (if printable (name node) \<and> printable (type node)
      then Inr [prefix' @ connector isLast @ text_of (name node) @ type_suffix (type node)]
      else Inl TypeError)"
proof (cases "truthy (type node)")
  case True
  then show ?thesis
    by (simp add: node_lines_def js_toString_text connector_def type_suffix_def)
next
  case False
  with falsy_printable [of "type node"] show ?thesis
    by (simp add: node_lines_def js_toString_text connector_def type_suffix_def)
qed

lemma node_lines_root:
  "node_lines node prefix' isLast True =
     (if printable (name node) \<and> printable (type node)
      then Inr [package_glyph @ '' '' @ text_of (name node),
                ''   '' @ corner_glyph @ dash_glyph @ '' type: '' @ text_of (type node)]
      else Inl TypeError)"
  by (simp add: node_lines_def js_toString_text)

lemma render_siblings_from_branches:
  assumes node: "\<And>a t flags isLast. represents store a t \<Longrightarrow> height t \<le> fuel \<Longrightarrow>
      renderNode fuel store a (indent flags) isLast False
        = (if printable_tree t then Inr (branch_lines flags isLast t) else Inl TypeError)"
  shows "list_all2 (represents store) cs ts \<Longrightarrow> \<forall>t \<in> set ts. height t \<le> fuel \<Longrightarrow>
      renderChildren fuel store cs (indent flags)
        = (if list_all printable_tree ts then Inr (siblings_lines flags ts) else Inl TypeError)"
proof (induction cs ts rule: list_all2_induct)
  case Nil
  then show ?case by simp
next
  case (Cons c cs t ts)
  from Cons.hyps(2) have "(cs = []) = (ts = [])"
    by (auto dest: list_all2_lengthD)
  with Cons node [of c t flags "ts = []"] show ?case by simp
qed

lemma render_branch:
  "represents store a t \<Longrightarrow> height t \<le> fuel \<Longrightarrow>
     renderNode fuel store a (indent flags) isLast False
       = (if printable_tree t then Inr (branch_lines flags isLast t) else Inl TypeError)"
proof (induction fuel arbitrary: a t flags isLast)
  case 0
  then show ?case by (cases t) simp
next
  case (Suc fuel)
  obtain nm ty ts where t: "t = Tree nm ty ts" by (cases t)
  from Suc.prems t have kids: "list_all2 (represents store) (children (store ! a)) ts"
    and low: "\<forall>u \<in> set ts. height u \<le> fuel"
    and labels: "name (store ! a) = nm" "type (store ! a) = ty"
    using height_member [of _ ts] by fastforce+
  have "renderChildren fuel store (children (store ! a)) (indent (flags @ [isLast]))
          = (if list_all printable_tree ts then Inr (siblings_lines (flags @ [isLast]) ts)
             else Inl TypeError)"
    using render_siblings_from_branches [OF Suc.IH kids low] .
  with labels t show ?case
    by (simp add: indent_snoc node_lines_branch)
qed

lemma render_siblings:
  "list_all2 (represents store) cs ts \<Longrightarrow> \<forall>t \<in> set ts. height t \<le> fuel \<Longrightarrow>
     renderChildren fuel store cs (indent flags)
       = (if list_all printable_tree ts then Inr (siblings_lines flags ts) else Inl TypeError)"
  using render_siblings_from_branches [OF render_branch] by blast

lemma render_root:
  assumes "represents store a t" and "height t \<le> fuel"
  shows "renderNode fuel store a '''' True True
           = (if printable_tree t then Inr (root_lines t) else Inl TypeError)"
proof -
  obtain nm ty ts where t: "t = Tree nm ty ts" by (cases t)
  from assms t obtain f where f: "fuel = Suc f" by (cases fuel) auto
  from assms t f have kids: "list_all2 (represents store) (children (store ! a)) ts"
    and low: "\<forall>u \<in> set ts. height u \<le> f"
    and labels: "name (store ! a) = nm" "type (store ! a) = ty"
    using height_member [of _ ts] by fastforce+
  have "indent [True] = ''   ''" by (simp add: indent_def)
  with render_siblings [OF kids low, of "[True]"] labels t f show ?thesis
    by (simp add: node_lines_root child_prefix_def)
qed

lemma render_roots:
  "list_all2 (represents store) roots ts \<Longrightarrow> \<forall>t \<in> set ts. height t \<le> fuel \<Longrightarrow>
     renderRoots fuel store index roots
       = (if list_all printable_tree ts
          then Inr ((if index > 0 \<and> ts \<noteq> [] then [''''] else []) @ forest_lines ts)
          else Inl TypeError)"
proof (induction roots ts arbitrary: index rule: list_all2_induct)
  case Nil
  then show ?case by simp
next
  case (Cons r roots t ts)
  then show ?case
    by (cases ts) (simp_all add: render_root)
qed

text \<open>
  Claim C6.  When the root addresses of a store hold a forest, and the bound on the
  recursion depth is at least the height of its trees, \<^verbatim>\<open>renderTree\<close> returns the text
  of the rendering rules: for every root a header line with its name and an indented
  line with its type; for every other node one line, with the connector of a last or
  of an inner sibling, the name and the type between parentheses when there is one,
  after an indentation of one piece for each ancestor; one blank line between two roots.
  This is so when every name and type can be converted to a string (every string can);
  otherwise \<^verbatim>\<open>renderTree\<close> throws the exception of the conversion.
\<close>

theorem tree_rendering:
  assumes "list_all2 (represents store) roots ts" and "\<forall>t \<in> set ts. height t \<le> fuel"
  shows "renderTree fuel (store, roots)
           = (if list_all printable_tree ts then Inr (join newline (forest_lines ts))
              else Inl TypeError)"
  using render_roots [OF assms, of 0] by (simp add: renderTree_def)

theorem tree_rendering_witness:
  "renderTree 2 (frame_store, [0]) =
     Inr (join newline
       [package_glyph @ '' Frame'',
        ''   '' @ corner_glyph @ dash_glyph @ '' type: FRAME'',
        ''   '' @ tee_glyph @ dash_glyph @ '' Label (TEXT)'',
        ''   '' @ corner_glyph @ dash_glyph @ '' Icon (VECTOR)''])"
  using tree_rendering [of frame_store "[0]" "[frame_tree]" 2]
  by (simp add: frame_store_def frame_tree_def indent_def connector_def type_suffix_def)

section \<open>The variant grouper\<close>

lemma field_differs_plain:
  "x \<noteq> JUndefined \<Longrightarrow> x \<noteq> JNull \<Longrightarrow> y \<noteq> JUndefined \<Longrightarrow> y \<noteq> JNull \<Longrightarrow>
     plain_field (js_get x k) \<Longrightarrow> field_differs x y k = Inr (js_get x k \<noteq> js_get y k)"
  by (auto simp: field_differs_def read_prop_def strict_eq_def plain_field_def)

lemma compare_elements_plain:
  "length xs = length ys \<Longrightarrow> list_all plain_element xs \<Longrightarrow> list_all plain_element ys \<Longrightarrow>
     compare_elements xs ys = Inr (list_all2 (\<lambda>x y. triple_of x = triple_of y) xs ys)"
proof (induction xs ys rule: list_induct2)
  case Nil
  then show ?case by simp
next
  case (Cons x xs y ys)
  then show ?case
    by (auto simp: plain_element_def field_differs_plain triple_of_def)
qed

lemma map_of_values: "distinct (map fst kvs) \<Longrightarrow> map (\<lambda>k. map_of kvs k) (map fst kvs) = map (Some \<circ> snd) kvs"
  by (induction kvs) (auto simp: rev_image_eqI)

lemma as_array_elements:
  assumes "isArray a \<or> is_object a" and "distinct_keys a"
  shows "as_array a = Inr (elements_of a)"
proof (cases a)
  case (JObj kvs)
  with assms(2) have d: "distinct (map fst kvs)" by simp
  have "map (js_get (JObj kvs)) (map fst kvs) = map snd kvs"
    using map_of_values [OF d]
    by (simp add: js_get_def list_eq_iff_nth_eq)
  with JObj show ?thesis by (simp add: as_array_def object_keys_def)
next
  case (JArr xs)
  then show ?thesis by (simp add: as_array_def)
qed (insert assms(1), simp_all)

lemma compareAnatomies_plain:
  assumes "isArray a \<or> is_object a" and "isArray b \<or> is_object b"
    and "distinct_keys a" and "distinct_keys b"
    and "list_all plain_element (elements_of a)" and "list_all plain_element (elements_of b)"
  shows "compareAnatomies a b = Inr (same_triples (elements_of a) (elements_of b))"
  using assms
  by (simp add: compareAnatomies_def as_array_elements same_triples_def compare_elements_plain)

lemma plain_encode: "plain_element (encode r)"
  by (cases r) (simp add: encode_def plain_element_def plain_field_def element_def js_get_def)

lemma plain_flat_value: "plain_element (flat_value e)"
  by (cases e) (simp add: flat_value_def plain_element_def plain_field_def js_get_def)

lemma anatomy_facts:
  "isArray (encode_anatomy a) \<or> is_object (encode_anatomy a)"
  "distinct_keys (encode_anatomy a) = well_keyed a"
  "list_all plain_element (elements_of (encode_anatomy a))"
  by (cases a; simp add: sequence_def flat_mapping_def list_all_iff plain_encode
      plain_flat_value comp_def)+

lemma compareAnatomies_encoded:
  "well_keyed a \<Longrightarrow> well_keyed b \<Longrightarrow>
     compareAnatomies (encode_anatomy a) (encode_anatomy b) = Inr (same_shape a b)"
  by (simp add: compareAnatomies_plain anatomy_facts same_shape_def)

lemma triple_encode: "triple_of (encode r) = (case r of (n, t, p, pp) \<Rightarrow> (JStr n, JStr t, JStr p))"
  by (cases r) (simp add: triple_of_def encode_def element_def js_get_def)

lemma triple_flat_value:
  "triple_of (flat_value e) = (case e of (n, t, p) \<Rightarrow> (JUndefined, JStr t, JStr p))"
  by (cases e) (simp add: triple_of_def flat_value_def js_get_def)

lemma list_all2_maps:
  "list_all2 (\<lambda>x y. f x = g y) xs ys = (map f xs = map g ys)"
  by (induction xs arbitrary: ys) (auto simp: list_all2_Cons1)

lemma same_shape_sequences:
  "same_shape (Sequence a) (Sequence b)
     = (map (\<lambda>(n, t, p, pp). (n, t, p)) a = map (\<lambda>(n, t, p, pp). (n, t, p)) b)"
proof -
  have "list_all2 (\<lambda>x y. triple_of (encode x) = triple_of (encode y)) a b
          = (map (\<lambda>(n, t, p, pp). (n, t, p)) a = map (\<lambda>(n, t, p, pp). (n, t, p)) b)"
    by (induction a arbitrary: b) (auto simp: list_all2_Cons1 triple_encode)
  moreover have "map (\<lambda>(n, t, p, pp). (n, t, p)) a = map (\<lambda>(n, t, p, pp). (n, t, p)) b
      \<Longrightarrow> length a = length b"
    by (rule map_eq_imp_length_eq)
  ultimately show ?thesis
    by (auto simp: same_shape_def same_triples_def sequence_def list_all2_map1 list_all2_map2)
qed

lemma same_shape_mappings:
  "same_shape (Mapping a) (Mapping b)
     = (map (\<lambda>(n, t, p). (t, p)) a = map (\<lambda>(n, t, p). (t, p)) b)"
proof -
  have "list_all2 (\<lambda>x y. triple_of (flat_value x) = triple_of (flat_value y)) a b
          = (map (\<lambda>(n, t, p). (t, p)) a = map (\<lambda>(n, t, p). (t, p)) b)"
    by (induction a arbitrary: b) (auto simp: list_all2_Cons1 triple_flat_value)
  moreover have "map (\<lambda>(n, t, p). (t, p)) a = map (\<lambda>(n, t, p). (t, p)) b
      \<Longrightarrow> length a = length b"
    by (rule map_eq_imp_length_eq)
  ultimately show ?thesis
    by (auto simp: same_shape_def same_triples_def flat_mapping_def list_all2_map1
        list_all2_map2)
qed

lemma same_shape_mixed:
  "same_shape (Sequence a) (Mapping b) = (a = [] \<and> b = [])"
  "same_shape (Mapping b) (Sequence a) = (a = [] \<and> b = [])"
proof -
  have "list_all2 (\<lambda>x y. triple_of (encode x) = triple_of (flat_value y)) a b
          = (a = [] \<and> b = [])"
    by (cases a; cases b) (auto simp: triple_encode triple_flat_value)
  then show "same_shape (Sequence a) (Mapping b) = (a = [] \<and> b = [])"
    by (auto simp: same_shape_def same_triples_def sequence_def flat_mapping_def
        list_all2_map1 list_all2_map2)
  have "list_all2 (\<lambda>y x. triple_of (flat_value y) = triple_of (encode x)) b a
          = (a = [] \<and> b = [])"
    by (cases a; cases b) (auto simp: triple_encode triple_flat_value)
  then show "same_shape (Mapping b) (Sequence a) = (a = [] \<and> b = [])"
    by (auto simp: same_shape_def same_triples_def sequence_def flat_mapping_def
        list_all2_map1 list_all2_map2)
qed

lemma stringify_encode: "JSON_stringify (encode r) = encode r"
  by (cases r) (simp add: encode_def element_def)

lemma encode_defined: "encode r \<noteq> JUndefined"
  by (cases r) (simp add: encode_def element_def)

lemma stringify_flat_value: "JSON_stringify (flat_value e) = flat_value e"
  by (cases e) (simp add: flat_value_def)

lemma flat_value_defined: "flat_value e \<noteq> JUndefined"
  by (cases e) (simp add: flat_value_def)

lemma stringify_anatomy: "JSON_stringify (encode_anatomy a) = encode_anatomy a"
proof (cases a)
  case (Sequence rs)
  then show ?thesis
    by (simp add: sequence_def stringify_encode encode_defined cong: map_cong)
next
  case (Mapping es)
  have "filter (\<lambda>kv. snd kv \<noteq> JUndefined) (map (\<lambda>e. (fst e, flat_value e)) es)
          = map (\<lambda>e. (fst e, flat_value e)) es"
    by (induction es) (simp_all add: flat_value_defined)
  with Mapping show ?thesis
    by (simp add: flat_mapping_def stringify_flat_value comp_def)
qed

lemma same_triples_refl: "same_triples xs xs"
  by (simp add: same_triples_def list_all2_same)

lemma encode_anatomy_inject: "encode_anatomy a = encode_anatomy b \<Longrightarrow> same_shape a b"
  by (simp add: same_shape_def same_triples_refl)

lemma js_get_variant:
  "distinct (map fst vs) \<Longrightarrow> v \<in> set vs \<Longrightarrow>
     js_get (variant_mapping vs) (fst v) = encode_anatomy (snd v)"
proof -
  assume d: "distinct (map fst vs)" and v: "v \<in> set vs"
  have "map_of (map (\<lambda>v. (fst v, encode_anatomy (snd v))) vs) (fst v)
          = Some (encode_anatomy (snd v))"
    using d v by (induction vs) (auto simp: rev_image_eqI)
  then show ?thesis by (simp add: js_get_def variant_mapping_def)
qed

lemma place_no_match:
  "\<forall>g \<in> set G. \<not> same_shape (snd v) (snd (hd g)) \<Longrightarrow> place v G = G @ [[v]]"
  by (induction G) simp_all

lemma place_nonempty: "\<forall>g \<in> set G. g \<noteq> [] \<Longrightarrow> \<forall>g \<in> set (place v G). g \<noteq> []"
  by (induction G) simp_all

lemma place_members:
  "\<forall>g \<in> set G. set g \<subseteq> V \<Longrightarrow> v \<in> V \<Longrightarrow> \<forall>g \<in> set (place v G). set g \<subseteq> V"
  by (induction G) simp_all

lemma groups_set_fresh:
  "k \<notin> fst ` set gs \<Longrightarrow> groups_set gs k names = gs @ [(k, names)]"
  by (induction gs) auto

lemma find_group_grouping:
  assumes d: "distinct (map fst vs)" and w: "\<forall>v \<in> set vs. well_keyed (snd v)"
    and v: "v \<in> set vs"
  shows "\<forall>g \<in> set G. g \<noteq> [] \<and> set g \<subseteq> set vs \<Longrightarrow>
     find_group (variant_mapping vs) (fst v) (map as_group G) =
       Inr (if \<exists>g \<in> set G. same_shape (snd v) (snd (hd g))
            then Some (map as_group (place v G)) else None)"
proof (induction G)
  case Nil
  then show ?case by simp
next
  case (Cons g G)
  then have g: "g \<noteq> []" "hd g \<in> set vs" by auto
  have first: "first_name (map fst g) = fst (hd g)"
    using g by (cases g) (simp_all add: first_name_def)
  have cmp: "compareAnatomies (js_get (variant_mapping vs) (fst v))
               (js_get (variant_mapping vs) (first_name (map fst g)))
             = Inr (same_shape (snd v) (snd (hd g)))"
    using g w v by (simp add: first js_get_variant [OF d] compareAnatomies_encoded)
  show ?case
  proof (cases "same_shape (snd v) (snd (hd g))")
    case True
    with cmp g show ?thesis by (simp add: as_group_def)
  next
    case False
    with cmp Cons show ?thesis by (simp add: as_group_def)
  qed
qed

lemma add_variant_grouping:
  assumes d: "distinct (map fst vs)" and w: "\<forall>v \<in> set vs. well_keyed (snd v)"
    and v: "v \<in> set vs"
    and G: "\<forall>g \<in> set G. g \<noteq> [] \<and> set g \<subseteq> set vs"
  shows "add_variant (variant_mapping vs) (map as_group G) (fst v)
           = Inr (map as_group (place v G))"
proof (cases "\<exists>g \<in> set G. same_shape (snd v) (snd (hd g))")
  case True
  then show ?thesis
    using find_group_grouping [OF d w v G] by (simp add: add_variant_def)
next
  case False
  then have "encode_anatomy (snd v) \<notin> fst ` set (map as_group G)"
    using encode_anatomy_inject by (fastforce simp: as_group_def)
  with False show ?thesis
    using find_group_grouping [OF d w v G]
    by (simp add: add_variant_def js_get_variant [OF d v] stringify_anatomy groups_set_fresh
        place_no_match as_group_def)
qed

lemma group_variants_grouping:
  assumes d: "distinct (map fst vs)" and w: "\<forall>v \<in> set vs. well_keyed (snd v)"
  shows "set ws \<subseteq> set vs \<Longrightarrow> \<forall>g \<in> set G. g \<noteq> [] \<and> set g \<subseteq> set vs \<Longrightarrow>
     group_variants (variant_mapping vs) (map as_group G) (map fst ws)
       = Inr (map as_group (foldl (\<lambda>gs v. place v gs) G ws))"
proof (induction ws arbitrary: G)
  case Nil
  then show ?case by simp
next
  case (Cons x ws)
  then have x: "x \<in> set vs" by simp
  have G': "\<forall>g \<in> set (place x G). g \<noteq> [] \<and> set g \<subseteq> set vs"
    using Cons.prems(2) place_nonempty [of G x] place_members [of G "set vs" x] x by blast
  from Cons.prems have "set ws \<subseteq> set vs" by simp
  from Cons.IH [OF this G'] add_variant_grouping [OF d w x Cons.prems(2)]
  show ?case by simp
qed

lemma group_variants_mapping:
  assumes "distinct (map fst vs)" and "\<forall>v \<in> set vs. well_keyed (snd v)"
  shows "group_variants (variant_mapping vs) [] (map fst (own_entries (variant_mapping vs)))
           = Inr (map as_group (grouping vs))"
  using group_variants_grouping [OF assms, of vs "[]"]
  by (simp add: grouping_def variant_mapping_def comp_def)

lemma grouping_snoc: "grouping (ws @ [v]) = place v (grouping ws)"
  by (simp add: grouping_def)

lemma place_hd:
  "\<forall>g \<in> set G. g \<noteq> [] \<Longrightarrow>
     map hd (place v G) = (if \<exists>g \<in> set G. same_shape (snd v) (snd (hd g)) then map hd G
                           else map hd G @ [v])"
  by (induction G) auto

lemma place_subseq:
  "\<forall>g \<in> set G. subseq g ws \<Longrightarrow> \<forall>g \<in> set (place v G). subseq g (ws @ [v])"
  by (induction G) (auto intro: subseq_rev_drop_many list_emb_append_mono)

lemma place_mset: "mset (concat (place v G)) = mset (concat G) + {#v#}"
  by (induction G) simp_all

lemma grouping_nonempty: "\<forall>g \<in> set (grouping ws). g \<noteq> []"
  by (induction ws rule: rev_induct) (simp_all add: grouping_def place_nonempty)

lemma grouping_members_in_order: "\<forall>g \<in> set (grouping ws). subseq g ws"
proof (induction ws rule: rev_induct)
  case Nil
  then show ?case by (simp add: grouping_def)
next
  case (snoc v ws)
  then show ?case unfolding grouping_snoc by (rule place_subseq)
qed

lemma grouping_first_seen: "subseq (map hd (grouping ws)) ws"
proof (induction ws rule: rev_induct)
  case Nil
  then show ?case by (simp add: grouping_def)
next
  case (snoc v ws)
  then show ?case
    using grouping_nonempty [of ws]
    by (auto simp: grouping_snoc place_hd intro: subseq_rev_drop_many list_emb_append_mono)
qed

lemma grouping_partition: "mset (concat (grouping ws)) = mset ws"
  by (induction ws rule: rev_induct) (simp_all add: grouping_snoc place_mset, simp add: grouping_def)

lemma three_variants_grouping:
  "grouping three_variants =
     [[(''Default'', Sequence [(''Frame'', ''FRAME'', ''Frame'', '''')]),
       (''Hover'', Sequence [(''Frame'', ''FRAME'', ''Frame'', ''Canvas'')])],
      [(''Disabled'', Sequence [(''Frame'', ''FRAME'', ''Frame'', ''''),
                                (''Label'', ''TEXT'', ''Frame > Label'', ''Frame'')])]]"
  by code_simp

lemma mapping_variants_grouping:
  "map (map fst) (grouping mapping_variants) = [[''Default'', ''Hover''], [''Pressed''], [''Disabled'']]"
  by code_simp

text \<open>
  Claim C4, as amended.  \<^verbatim>\<open>compareAnatomies\<close> compares the elements of two anatomies:
  the elements of an array, and for an object the values of its properties in the order
  of its keys.  It judges the anatomies equal exactly when there are as many elements in
  both and the name, the type and the path read from the elements are the same at every
  position, whatever the order of the keys of an element and whatever else it holds.  So
  two sequences are equal exactly when their (name, type, path) triples are; two flat
  mappings are equal exactly when the types and paths of their entries are the same in
  the order of the keys, the keys themselves not being compared; and a sequence and a
  flat mapping are equal only when both are empty.  On a mapping from variant names to
  anatomies the grouping loop yields the groups of \<open>grouping\<close>: each variant, in the
  order of the input, joins the first group whose first member has its shape, or opens a
  new group after the others.  Hence every variant is in one group, the members of a
  group keep the order of the input, and so do the first members of the groups.
\<close>

theorem variant_grouping:
  assumes "distinct (map fst vs)" and "\<forall>v \<in> set vs. well_keyed (snd v)"
  shows "((isArray x \<or> is_object x) \<and> (isArray y \<or> is_object y)
            \<and> distinct_keys x \<and> distinct_keys y
            \<and> list_all plain_element (elements_of x) \<and> list_all plain_element (elements_of y)
          \<longrightarrow> compareAnatomies x y = Inr (same_triples (elements_of x) (elements_of y)))
       \<and> (well_keyed a \<and> well_keyed b \<longrightarrow>
            compareAnatomies (encode_anatomy a) (encode_anatomy b) = Inr (same_shape a b))
       \<and> same_shape (Sequence rs) (Sequence rs')
           = (map (\<lambda>(n, t, p, pp). (n, t, p)) rs = map (\<lambda>(n, t, p, pp). (n, t, p)) rs')
       \<and> same_shape (Mapping es) (Mapping es')
           = (map (\<lambda>(n, t, p). (t, p)) es = map (\<lambda>(n, t, p). (t, p)) es')
       \<and> same_shape (Sequence rs) (Mapping es) = (rs = [] \<and> es = [])
       \<and> same_shape (Mapping es) (Sequence rs) = (rs = [] \<and> es = [])
       \<and> group_variants (variant_mapping vs) [] (map fst (own_entries (variant_mapping vs)))
           = Inr (map as_group (grouping vs))
       \<and> (\<forall>g \<in> set (grouping vs). g \<noteq> [] \<and> subseq g vs)
       \<and> subseq (map hd (grouping vs)) vs
       \<and> mset (concat (grouping vs)) = mset vs"
proof -
  have "(isArray x \<or> is_object x) \<and> (isArray y \<or> is_object y)
            \<and> distinct_keys x \<and> distinct_keys y
            \<and> list_all plain_element (elements_of x) \<and> list_all plain_element (elements_of y)
          \<longrightarrow> compareAnatomies x y = Inr (same_triples (elements_of x) (elements_of y))"
    using compareAnatomies_plain [of x y] by blast
  moreover have "well_keyed a \<and> well_keyed b \<longrightarrow>
            compareAnatomies (encode_anatomy a) (encode_anatomy b) = Inr (same_shape a b)"
    by (simp add: compareAnatomies_encoded)
  moreover note same_shape_sequences [of rs rs'] same_shape_mappings [of es es']
    same_shape_mixed [where a = rs and b = es] group_variants_mapping [OF assms]
  moreover have "\<forall>g \<in> set (grouping vs). g \<noteq> [] \<and> subseq g vs"
    using grouping_nonempty [of vs] grouping_members_in_order [of vs] by blast
  moreover note grouping_first_seen [of vs] grouping_partition [of vs]
  ultimately show ?thesis by blast
qed

theorem variant_grouping_witness:
  "map_sum id (map snd)
       (group_variants (variant_mapping three_variants) []
          (map fst (own_entries (variant_mapping three_variants))))
     = Inr [[''Default'', ''Hover''], [''Disabled'']]
   \<and> map_sum id (map snd)
       (group_variants (variant_mapping mapping_variants) []
          (map fst (own_entries (variant_mapping mapping_variants))))
     = Inr [[''Default'', ''Hover''], [''Pressed''], [''Disabled'']]"
proof
  have "distinct (map fst three_variants)" "\<forall>v \<in> set three_variants. well_keyed (snd v)"
    by (simp_all add: three_variants_def)
  from variant_grouping [OF this, of JNull JNull "Sequence []" "Sequence []" "[]" "[]" "[]" "[]"]
  have "group_variants (variant_mapping three_variants) []
          (map fst (own_entries (variant_mapping three_variants)))
        = Inr (map as_group (grouping three_variants))"
    by blast
  then show "map_sum id (map snd)
       (group_variants (variant_mapping three_variants) []
          (map fst (own_entries (variant_mapping three_variants))))
     = Inr [[''Default'', ''Hover''], [''Disabled'']]"
    by (simp add: three_variants_grouping as_group_def)
next
  have "distinct (map fst mapping_variants)" "\<forall>v \<in> set mapping_variants. well_keyed (snd v)"
    by (simp_all add: mapping_variants_def)
  from variant_grouping [OF this, of JNull JNull "Sequence []" "Sequence []" "[]" "[]" "[]" "[]"]
  have "group_variants (variant_mapping mapping_variants) []
          (map fst (own_entries (variant_mapping mapping_variants)))
        = Inr (map as_group (grouping mapping_variants))"
    by blast
  moreover have "map snd (map as_group (grouping mapping_variants))
      = map (map fst) (grouping mapping_variants)"
    by (simp add: as_group_def comp_def)
  ultimately show "map_sum id (map snd)
       (group_variants (variant_mapping mapping_variants) []
          (map fst (own_entries (variant_mapping mapping_variants))))
     = Inr [[''Default'', ''Hover''], [''Pressed''], [''Disabled'']]"
    by (simp add: mapping_variants_grouping)
qed

text \<open>
  Claim C4 as stated fails on anatomies in the shape of an object.  The first two
  mappings hold the same elements under swapped keys and are judged different; the first
  and the third hold elements of different names and are judged equal, because the name
  of an element, its key, is not compared.
\<close>

theorem object_anatomies_counterexample:
  "compareAnatomies
     (flat_mapping [(''Frame'', ''FRAME'', ''Frame''), (''Label'', ''TEXT'', ''Frame > Label'')])
     (flat_mapping [(''Label'', ''TEXT'', ''Frame > Label''), (''Frame'', ''FRAME'', ''Frame'')])
     = Inr False
   \<and> compareAnatomies
     (flat_mapping [(''Frame'', ''FRAME'', ''Frame''), (''Label'', ''TEXT'', ''Frame > Label'')])
     (flat_mapping [(''Box'', ''FRAME'', ''Frame''), (''Text'', ''TEXT'', ''Frame > Label'')])
     = Inr True
   \<and> map_sum id (map snd)
       (group_variants (variant_mapping mapping_variants) []
          (map fst (own_entries (variant_mapping mapping_variants))))
     = Inr [[''Default'', ''Hover''], [''Pressed''], [''Disabled'']]"
  by code_simp

section \<open>The rendering of variant groups\<close>

lemma group_header_of: "group_header members = header_of members"
  by (cases members rule: header_of.cases) (simp_all add: group_header_def first_name_def)

lemma render_groups_blocks:
  "list_all2 (\<lambda>g t. render_single fuel (js_get anatomyData (first_name (snd g))) = Inr t) gs ts
   \<Longrightarrow> render_groups fuel anatomyData i gs = Inr (group_blocks i (map snd gs) ts)"
proof (induction gs ts arbitrary: i rule: list_all2_induct)
  case Nil
  then show ?case by simp
next
  case (Cons g gs t ts)
  obtain k members where g: "g = (k, members)" by (cases g)
  from Cons.hyps(1) g
  obtain forest where "buildTreeFromAnatomy (js_get anatomyData (first_name members)) = Inr forest"
    and "renderTree fuel forest = Inr t"
    by (cases "buildTreeFromAnatomy (js_get anatomyData (first_name members))")
       (simp_all add: render_single_def)
  with Cons.IH [of "Suc i"] g show ?case
    by (simp add: group_block_def group_header_of rule_line_def)
qed

text \<open>
  Claim C5.  When the variants of a variant-based input fall into one group, the
  anatomy of the first variant is rendered once, without header or rule.  Otherwise,
  when the tree of each group renders, the output is the blocks of the groups joined by
  newlines: for each group a header naming its variants (\<^verbatim>\<open>[Variant: X]\<close> for one,
  \<^verbatim>\<open>[Variants: A, B]\<close> for several), a blank line and the tree of its first variant,
  and before every group but the first a rule of sixty dashes between two blank lines.
\<close>

theorem variant_rendering:
  assumes "group_variants anatomyData [] (map fst (own_entries anatomyData)) = Inr gs"
  shows "(length gs = 1 \<longrightarrow>
            render_variants fuel anatomyData
              = render_single fuel
                  (js_get anatomyData (first_name (map fst (own_entries anatomyData)))))
       \<and> (length gs \<noteq> 1 \<longrightarrow>
            list_all2 (\<lambda>g t. render_single fuel (js_get anatomyData (first_name (snd g))) = Inr t)
              gs ts \<longrightarrow>
            render_variants fuel anatomyData
              = Inr (join newline (group_blocks 0 (map snd gs) ts)))"
  using assms render_groups_blocks [of fuel anatomyData gs ts 0]
  by (simp add: render_variants_def render_single_def Let_def)

lemma three_variants_detected:
  "convertAnatomyToTree 3 (variant_mapping three_variants)
     = render_variants 3 (variant_mapping three_variants)"
  by (simp add: convertAnatomyToTree_def variant_mapping_def three_variants_def first_value_def
      first_name_def js_get_def isVariantBased_def sequence_def)

lemma two_variants_detected:
  "convertAnatomyToTree 3 (variant_mapping two_variants)
     = render_variants 3 (variant_mapping two_variants)"
  by (simp add: convertAnatomyToTree_def variant_mapping_def two_variants_def first_value_def
      first_name_def js_get_def isVariantBased_def sequence_def)

lemma two_variants_grouping:
  "grouping two_variants =
     [[(''Default'', Sequence [(''Frame'', ''FRAME'', ''Frame'', '''')]),
       (''Hover'', Sequence [(''Frame'', ''FRAME'', ''Frame'', ''Canvas'')])]]"
  by code_simp

lemma default_text:
  "render_single 3 (sequence [(''Frame'', ''FRAME'', ''Frame'', '''')]) = Inr frame_text"
  by code_simp

lemma disabled_text:
  "render_single 3 (sequence [(''Frame'', ''FRAME'', ''Frame'', ''''),
      (''Label'', ''TEXT'', ''Frame > Label'', ''Frame'')]) = Inr frame_label_text"
  by code_simp

theorem variant_rendering_witness:
  "convertAnatomyToTree 3 (variant_mapping two_variants) = Inr frame_text
   \<and> convertAnatomyToTree 3 (variant_mapping three_variants)
     = Inr (join newline
         [''[Variants: Default, Hover]'', '''', frame_text,
          '''', concat (replicate 60 dash_glyph), '''',
          ''[Variant: Disabled]'', '''', frame_label_text])"
proof
  have d2: "distinct (map fst two_variants)" "\<forall>v \<in> set two_variants. well_keyed (snd v)"
    by (simp_all add: two_variants_def)
  have "js_get (variant_mapping two_variants)
          (first_name (map fst (own_entries (variant_mapping two_variants))))
        = sequence [(''Frame'', ''FRAME'', ''Frame'', '''')]"
    by (simp add: variant_mapping_def two_variants_def first_name_def js_get_def)
  with variant_rendering [OF group_variants_mapping [OF d2], of 3 "[]"]
  show "convertAnatomyToTree 3 (variant_mapping two_variants) = Inr frame_text"
    by (simp add: two_variants_detected two_variants_grouping default_text)
next
  have d3: "distinct (map fst three_variants)" "\<forall>v \<in> set three_variants. well_keyed (snd v)"
    by (simp_all add: three_variants_def)
  have g1: "js_get (variant_mapping three_variants) ''Default''
              = sequence [(''Frame'', ''FRAME'', ''Frame'', '''')]"
    and g2: "js_get (variant_mapping three_variants) ''Disabled''
              = sequence [(''Frame'', ''FRAME'', ''Frame'', ''''),
                  (''Label'', ''TEXT'', ''Frame > Label'', ''Frame'')]"
    by (simp_all add: variant_mapping_def three_variants_def js_get_def)
  with variant_rendering [OF group_variants_mapping [OF d3], of 3 "[frame_text, frame_label_text]"]
  show "convertAnatomyToTree 3 (variant_mapping three_variants)
     = Inr (join newline
         [''[Variants: Default, Hover]'', '''', frame_text,
          '''', concat (replicate 60 dash_glyph), '''',
          ''[Variant: Disabled]'', '''', frame_label_text])"
    by (simp add: three_variants_detected three_variants_grouping as_group_def first_name_def
        default_text disabled_text group_block_def)
qed

section \<open>The order of the input\<close>

lemma visit_frame:
  "\<forall>vs. visitNode f S c = Inr vs \<longrightarrow> (\<forall>a \<in> set vs. S' ! a = S ! a) \<longrightarrow> visitNode f S' c = Inr vs"
  "\<forall>vs. visitChildren f S cs = Inr vs \<longrightarrow> (\<forall>a \<in> set vs. S' ! a = S ! a)
        \<longrightarrow> visitChildren f S' cs = Inr vs"
proof (induction f S c and f S cs rule: visitNode_visitChildren.induct)
  case (1 store node)
  then show ?case by simp
next
  case (2 fuel store node)
  then show ?case
    by (cases "visitChildren fuel store (children (store ! node))") auto
next
  case (3 fuel store)
  then show ?case by simp
next
  case (4 fuel store child rest)
  then show ?case
    by (cases "visitNode fuel store child"; cases "visitChildren fuel store rest") auto
qed

lemma visit_mono:
  "\<forall>vs. visitNode f S c = Inr vs \<longrightarrow> visitNode (Suc f) S c = Inr vs"
  "\<forall>vs. visitChildren f S cs = Inr vs \<longrightarrow> visitChildren (Suc f) S cs = Inr vs"
proof (induction f S c and f S cs rule: visitNode_visitChildren.induct)
  case (1 store node)
  then show ?case by simp
next
  case (2 fuel store node)
  then show ?case
    by (cases "visitChildren fuel store (children (store ! node))") auto
next
  case (3 fuel store)
  then show ?case by simp
next
  case (4 fuel store child rest)
  then show ?case
    by (cases "visitNode fuel store child"; cases "visitChildren fuel store rest") auto
qed

lemma visitChildren_append:
  "visitChildren f S (xs @ ys) =
     thenE (visitChildren f S xs) (\<lambda>a. thenE (visitChildren f S ys) (\<lambda>b. Inr (a @ b)))"
proof (induction xs)
  case Nil
  then show ?case by (cases "visitChildren f S ys") simp_all
next
  case (Cons x xs)
  then show ?case
    by (cases "visitNode f S x"; cases "visitChildren f S xs"; cases "visitChildren f S ys")
       simp_all
qed

lemma visitNode_head: "visitNode f S c = Inr vs \<Longrightarrow> \<exists>w. vs = c # w"
  by (cases f; cases "visitChildren (f - 1) S (children (S ! c))") auto

lemma visit_frame_children:
  "visitChildren f S cs = Inr vs \<Longrightarrow> \<forall>a \<in> set vs. S' ! a = S ! a \<Longrightarrow>
     visitChildren f S' cs = Inr vs"
  using visit_frame(2) by blast

lemma visit_mono_add:
  "visitChildren f S cs = Inr vs \<Longrightarrow> visitChildren (f + d) S cs = Inr vs"
  by (induction d) (use visit_mono(2) in auto)

lemma visit_mono_children:
  "visitChildren f S cs = Inr vs \<Longrightarrow> f \<le> f' \<Longrightarrow> visitChildren f' S cs = Inr vs"
  using visit_mono_add [of f S cs vs "f' - f"] by simp

lemma visit_last:
  assumes "cs \<noteq> []" and "visitChildren f S cs = Inr vs"
  obtains v0 w f' where "vs = v0 @ last cs # w"
    and "visitChildren f S (butlast cs) = Inr v0"
    and "f = Suc f'"
    and "visitChildren f' S (children (S ! last cs)) = Inr w"
proof -
  from assms(1) have cs: "cs = butlast cs @ [last cs]" by simp
  from assms(2) have "visitChildren f S (butlast cs @ [last cs]) = Inr vs"
    using cs by simp
  then obtain v0 v1 where v0: "visitChildren f S (butlast cs) = Inr v0"
    and v1: "visitNode f S (last cs) = Inr v1" and vs: "vs = v0 @ v1"
    by (cases "visitChildren f S (butlast cs)"; cases "visitNode f S (last cs)")
       (auto simp: visitChildren_append)
  from v1 obtain f' where f: "f = Suc f'" by (cases f) auto
  with v1 obtain w where "visitChildren f' S (children (S ! last cs)) = Inr w"
    and "v1 = last cs # w"
    by (cases "visitChildren f' S (children (S ! last cs))") auto
  with v0 vs f that show thesis by blast
qed

lemma chain_visited:
  "chain S cs (xs @ [p]) \<Longrightarrow> visitChildren f S cs = Inr vs \<Longrightarrow> p \<in> set vs"
proof (induction xs arbitrary: cs f vs)
  case Nil
  then have "cs \<noteq> []" "last cs = p" by auto
  with Nil.prems(2) show ?case by (auto elim!: visit_last)
next
  case (Cons c xs)
  then have cs: "cs \<noteq> []" "last cs = c" and ch: "chain S (children (S ! c)) (xs @ [p])"
    by auto
  from cs(1) Cons.prems(2) obtain v0 w f' where "vs = v0 @ last cs # w"
    and "visitChildren f' S (children (S ! last cs)) = Inr w"
    by (rule visit_last)
  with Cons.IH [OF ch, of f' w] cs show ?case by simp
qed

lemma push_child_other:
  "a < length S \<Longrightarrow> a \<noteq> p \<Longrightarrow> push_child (S @ [n]) p k ! a = S ! a"
  by (simp add: push_child_def nth_append)

lemma push_child_same:
  assumes "\<forall>a \<in> set v. a < length S" and "p \<notin> set v"
  shows "\<forall>a \<in> set v. push_child (S @ [n]) p k ! a = S ! a"
proof
  fix a assume a: "a \<in> set v"
  with assms have "a < length S" "a \<noteq> p" by auto
  then show "push_child (S @ [n]) p k ! a = S ! a" by (rule push_child_other)
qed

lemma push_child_parent:
  "p < length S \<Longrightarrow> children (push_child (S @ [n]) p k ! p) = children (S ! p) @ [k]"
  by (simp add: push_child_def nth_append)

lemma push_child_new:
  "p < length S \<Longrightarrow> push_child (S @ [n]) p (length S) ! length S = n"
  by (simp add: push_child_def)

lemma visit_spine:
  assumes n: "children n = []"
  shows "chain S cs (xs @ [p]) \<Longrightarrow> visitChildren f S cs = Inr vs \<Longrightarrow> distinct vs \<Longrightarrow>
     \<forall>a \<in> set vs. a < length S \<Longrightarrow>
     visitChildren (Suc f) (push_child (S @ [n]) p (length S)) cs = Inr (vs @ [length S])"
proof (induction xs arbitrary: cs f vs)
  case Nil
  let ?S = "push_child (S @ [n]) p (length S)"
  from Nil.prems(1) have cs: "cs \<noteq> []" "last cs = p" by auto
  from cs(1) Nil.prems(2) obtain v0 w f' where vs: "vs = v0 @ last cs # w"
    and v0: "visitChildren f S (butlast cs) = Inr v0" and f: "f = Suc f'"
    and w: "visitChildren f' S (children (S ! last cs)) = Inr w"
    by (rule visit_last)
  from vs cs Nil.prems(3,4) have p: "p < length S" "p \<notin> set v0" "p \<notin> set w" by auto
  have same0: "\<forall>a \<in> set v0. ?S ! a = S ! a"
    using vs Nil.prems(4) p by (intro push_child_same) auto
  have samew: "\<forall>a \<in> set w. ?S ! a = S ! a"
    using vs Nil.prems(4) p by (intro push_child_same) auto
  have r0: "visitChildren (Suc f) ?S (butlast cs) = Inr v0"
    using visit_mono_children [OF visit_frame_children [OF v0 same0], of "Suc f"] by simp
  have rw: "visitChildren f ?S (children (S ! p)) = Inr w"
    using visit_mono_children [OF visit_frame_children [OF w samew], of f] f cs by simp
  have rk: "visitNode f ?S (length S) = Inr [length S]"
    using f p n by (simp add: push_child_new)
  have "visitChildren f ?S (children (?S ! p)) = Inr (w @ [length S])"
    using rw rk p by (simp add: push_child_parent visitChildren_append)
  then have rp: "visitNode (Suc f) ?S p = Inr (p # w @ [length S])" by simp
  have "visitChildren (Suc f) ?S (butlast cs @ [last cs]) = Inr (v0 @ p # w @ [length S])"
    using r0 rp cs by (simp add: visitChildren_append)
  moreover have "butlast cs @ [last cs] = cs" using cs(1) by simp
  ultimately show ?case using cs vs by simp
next
  case (Cons c xs)
  let ?S = "push_child (S @ [n]) p (length S)"
  from Cons.prems(1) have cs: "cs \<noteq> []" "last cs = c"
    and ch: "chain S (children (S ! c)) (xs @ [p])" by auto
  from cs(1) Cons.prems(2) obtain v0 w f' where vs: "vs = v0 @ last cs # w"
    and v0: "visitChildren f S (butlast cs) = Inr v0" and f: "f = Suc f'"
    and w: "visitChildren f' S (children (S ! last cs)) = Inr w"
    by (rule visit_last)
  from chain_visited [OF ch] w cs have pw: "p \<in> set w" by simp
  with vs cs Cons.prems(3,4) have p: "p < length S" "p \<notin> set v0" "c \<noteq> p" "c < length S"
    by auto
  have same0: "\<forall>a \<in> set v0. ?S ! a = S ! a"
    using vs Cons.prems(4) p by (intro push_child_same) auto
  have r0: "visitChildren (Suc f) ?S (butlast cs) = Inr v0"
    using visit_mono_children [OF visit_frame_children [OF v0 same0], of "Suc f"] by simp
  have "visitChildren (Suc f') ?S (children (S ! c)) = Inr (w @ [length S])"
    using Cons.IH [OF ch, of f' w] w cs vs Cons.prems(3,4) by simp
  then have "visitNode (Suc f) ?S c = Inr (c # w @ [length S])"
    using f p by (simp add: push_child_other)
  with r0 have "visitChildren (Suc f) ?S (butlast cs @ [last cs]) = Inr (v0 @ c # w @ [length S])"
    using cs by (simp add: visitChildren_append)
  moreover have "butlast cs @ [last cs] = cs" using cs(1) by simp
  ultimately show ?case using cs vs by simp
qed

lemma chain_prefix: "chain S cs (xs @ ys) \<Longrightarrow> chain S cs xs"
  by (induction xs arbitrary: cs) auto

lemma chain_push:
  assumes n: "children n = []" and p: "p < length S"
  shows "chain S cs (xs @ [p]) \<Longrightarrow> \<forall>c \<in> set xs. c < length S \<and> c \<noteq> p \<Longrightarrow>
     chain (push_child (S @ [n]) p (length S)) cs (xs @ [p, length S])"
proof (induction xs arbitrary: cs)
  case Nil
  then show ?case using p by (simp add: push_child_parent)
next
  case (Cons c xs)
  then show ?case by (simp add: push_child_other)
qed

lemma well_listed_root:
  assumes inv: "well_listed st branch" and n: "children n = []"
  shows "well_listed (st\<lparr>nodes := nodes st @ [n], nodesByPath := m,
            rootNodes := rootNodes st @ [length (nodes st)]\<rparr>) [length (nodes st)]"
proof -
  let ?S = "nodes st" and ?k = "length (nodes st)"
  from inv have v: "visitChildren ?k ?S (rootNodes st) = Inr [0..<?k]"
    by (simp add: well_listed_def)
  have "\<forall>a \<in> set [0..<?k]. (?S @ [n]) ! a = ?S ! a" by (simp add: nth_append)
  from visit_mono_children [OF visit_frame_children [OF v this], of "Suc ?k"]
  have "visitChildren (Suc ?k) (?S @ [n]) (rootNodes st) = Inr [0..<?k]" by simp
  moreover have "visitNode (Suc ?k) (?S @ [n]) ?k = Inr [?k]" using n by simp
  ultimately have "visitChildren (Suc ?k) (?S @ [n]) (rootNodes st @ [?k]) = Inr [0..<Suc ?k]"
    by (simp add: visitChildren_append)
  then show ?thesis by (simp add: well_listed_def)
qed

lemma well_listed_child:
  assumes inv: "well_listed st branch" and n: "children n = []" and p: "p \<in> set branch"
  shows "well_listed (st\<lparr>nodes := push_child (nodes st @ [n]) p (length (nodes st)),
            nodesByPath := m\<rparr>)
           (length (nodes st) # dropWhile (\<lambda>q. q \<noteq> p) branch)"
proof -
  let ?S = "nodes st" and ?k = "length (nodes st)"
  let ?S' = "push_child (?S @ [n]) p ?k"
  from p obtain b1 b2 where branch: "branch = b1 @ p # b2" and b1: "p \<notin> set b1"
    by (meson split_list_first)
  then have dw: "dropWhile (\<lambda>q. q \<noteq> p) branch = p # b2"
    by (auto simp: dropWhile_append3 dropWhile_append2)
  from inv have v: "visitChildren ?k ?S (rootNodes st) = Inr [0..<?k]"
    and ch: "chain ?S (rootNodes st) (rev branch)"
    and so: "sorted_wrt (>) branch" and lt: "\<forall>q \<in> set branch. q < ?k"
    by (simp_all add: well_listed_def)
  from ch branch have ch': "chain ?S (rootNodes st) (rev b2 @ [p])"
    using chain_prefix [of ?S "rootNodes st" "rev b2 @ [p]" "rev b1"] by simp
  from lt branch have pk: "p < ?k" by simp
  from so branch lt have b2: "\<forall>c \<in> set (rev b2). c < ?k \<and> c \<noteq> p"
    by (auto simp: sorted_wrt_append)
  have "visitChildren (Suc ?k) ?S' (rootNodes st) = Inr ([0..<?k] @ [?k])"
    using visit_spine [OF n ch' v] by simp
  moreover have "chain ?S' (rootNodes st) (rev b2 @ [p, ?k])"
    using chain_push [OF n pk ch' b2] .
  moreover have "sorted_wrt (>) (?k # p # b2)"
    using so branch lt by (auto simp: sorted_wrt_append)
  moreover have "length ?S' = Suc ?k" by (simp add: push_child_def)
  ultimately have "well_listed (st\<lparr>nodes := ?S', nodesByPath := m\<rparr>) (?k # p # b2)"
    using lt branch by (auto simp: well_listed_def)
  then show ?thesis by (simp only: dw)
qed

lemma truthy_not_empty: "truthy v \<Longrightarrow> \<not> strict_eq v (JStr '''')"
  by (auto simp: strict_eq_def)

lemma add_node_cases:
  assumes "x \<noteq> JUndefined" and "x \<noteq> JNull"
  shows "add_node st x =
     Inr (if \<not> truthy (js_get x ''parentPath'') then as_root st x
          else (case map_get (new_map st x) (js_get x ''parentPath'') of
                  Some p \<Rightarrow> as_child st x p
                | None \<Rightarrow> as_root st x))"
proof (cases "truthy (js_get x ''parentPath'')")
  case False
  with assms show ?thesis
    by (simp add: add_node_def Let_def as_root_def new_map_def new_node_def)
next
  case True
  show ?thesis
  proof (cases "map_get (new_map st x) (js_get x ''parentPath'')")
    case None
    with True assms show ?thesis
      by (simp add: add_node_def Let_def truthy_not_empty as_root_def new_map_def new_node_def)
  next
    case (Some p)
    with True assms show ?thesis
      by (simp add: add_node_def Let_def truthy_not_empty as_child_def new_map_def new_node_def)
  qed
qed

lemma new_node_leaf: "children (new_node x) = []"
  by (simp add: new_node_def)

lemma as_root_fields:
  "nodes (as_root st x) = nodes st @ [new_node x]"
  "rootNodes (as_root st x) = rootNodes st @ [length (nodes st)]"
  "nodesByPath (as_root st x) = new_map st x"
  by (simp_all add: as_root_def)

lemma as_child_fields:
  "nodes (as_child st x p) = push_child (nodes st @ [new_node x]) p (length (nodes st))"
  "rootNodes (as_child st x p) = rootNodes st"
  "nodesByPath (as_child st x p) = new_map st x"
  by (simp_all add: as_child_def)

lemma length_push_child: "length (push_child S p k) = length S"
  by (simp add: push_child_def)

lemma well_listed_as_root:
  "well_listed st branch \<Longrightarrow> well_listed (as_root st x) [length (nodes st)]"
  using well_listed_root [of st branch "new_node x" "new_map st x"]
  by (simp add: as_root_def new_node_leaf)

lemma well_listed_as_child:
  "well_listed st branch \<Longrightarrow> p \<in> set branch \<Longrightarrow>
     well_listed (as_child st x p) (length (nodes st) # dropWhile (\<lambda>q. q \<noteq> p) branch)"
  using well_listed_child [of st branch "new_node x" p "new_map st x"]
  by (simp add: as_child_def new_node_leaf)

lemma depth_first_from_step:
  "depth_first_from (nodesByPath st) branch (length (nodes st)) (x # xs) =
     (if \<not> truthy (js_get x ''parentPath'')
      then depth_first_from (new_map st x) [length (nodes st)] (Suc (length (nodes st))) xs
      else (case map_get (new_map st x) (js_get x ''parentPath'') of
              None \<Rightarrow> depth_first_from (new_map st x) [length (nodes st)]
                        (Suc (length (nodes st))) xs
            | Some p \<Rightarrow> p \<in> set branch
                \<and> depth_first_from (new_map st x)
                    (length (nodes st) # dropWhile (\<lambda>q. q \<noteq> p) branch)
                    (Suc (length (nodes st))) xs))"
  unfolding new_map_def by (simp add: Let_def)

declare depth_first_from.simps(2) [simp del]

lemma add_nodes_listed:
  "well_listed st branch \<Longrightarrow> list_all is_object xs \<Longrightarrow>
   depth_first_from (nodesByPath st) branch (length (nodes st)) xs \<Longrightarrow>
   \<exists>st' branch'. add_nodes st xs = Inr st' \<and> well_listed st' branch'
      \<and> length (nodes st') = length (nodes st) + length xs"
proof (induction xs arbitrary: st branch)
  case Nil
  then show ?case by auto
next
  case (Cons x xs)
  from Cons.prems(2) have obj: "x \<noteq> JUndefined" "x \<noteq> JNull" and rest: "list_all is_object xs"
    by auto
  note step = add_node_cases [OF obj, of st]
  note df = Cons.prems(3) [unfolded depth_first_from_step]
  show ?case
  proof (cases "\<not> truthy (js_get x ''parentPath'')
                \<or> map_get (new_map st x) (js_get x ''parentPath'') = None")
    case True
    with step have s: "add_node st x = Inr (as_root st x)" by auto
    from True df have "depth_first_from (nodesByPath (as_root st x)) [length (nodes st)]
        (length (nodes (as_root st x))) xs"
      by (auto simp: as_root_fields split: if_splits)
    from Cons.IH [OF well_listed_as_root [OF Cons.prems(1)] rest this] s
    show ?thesis by (auto simp: as_root_fields)
  next
    case False
    then obtain p where t: "truthy (js_get x ''parentPath'')"
      and p: "map_get (new_map st x) (js_get x ''parentPath'') = Some p" by auto
    with step have s: "add_node st x = Inr (as_child st x p)" by simp
    from t p df have pb: "p \<in> set branch"
      and "depth_first_from (nodesByPath (as_child st x p))
        (length (nodes st) # dropWhile (\<lambda>q. q \<noteq> p) branch)
        (length (nodes (as_child st x p))) xs"
      by (simp_all add: as_child_fields length_push_child)
    from Cons.IH [OF well_listed_as_child [OF Cons.prems(1) pb] rest this(2)] s
    show ?thesis by (auto simp: as_child_fields length_push_child)
  qed
qed

lemma push_child_labels:
  "map name (push_child S p k) = map name S" "map type (push_child S p k) = map type S"
proof -
  show "map name (push_child S p k) = map name S"
    by (cases "p < length S") (simp_all add: push_child_def map_update list_update_same_conv list_update_beyond)
  show "map type (push_child S p k) = map type S"
    by (cases "p < length S") (simp_all add: push_child_def map_update list_update_same_conv list_update_beyond)
qed

lemma add_node_labels:
  assumes "add_node st x = Inr st'"
  shows "map name (nodes st') = map name (nodes st) @ [js_get x ''name'']"
    and "map type (nodes st')
          = map type (nodes st) @ [or_else (js_get x ''type'') (JStr ''UNKNOWN'')]"
proof -
  from assms have obj: "x \<noteq> JUndefined" "x \<noteq> JNull"
    by (auto simp: add_node_def split: if_splits)
  from assms add_node_cases [OF obj, of st]
  have "st' = as_root st x \<or> (\<exists>p. st' = as_child st x p)"
    by (auto split: if_splits option.splits)
  then show "map name (nodes st') = map name (nodes st) @ [js_get x ''name'']"
    and "map type (nodes st')
          = map type (nodes st) @ [or_else (js_get x ''type'') (JStr ''UNKNOWN'')]"
    by (auto simp: as_root_fields as_child_fields push_child_labels new_node_def)
qed

lemma add_nodes_labels:
  "add_nodes st xs = Inr st' \<Longrightarrow>
     map name (nodes st') = map name (nodes st) @ map (\<lambda>x. js_get x ''name'') xs
     \<and> map type (nodes st')
         = map type (nodes st) @ map (\<lambda>x. or_else (js_get x ''type'') (JStr ''UNKNOWN'')) xs"
proof (induction xs arbitrary: st)
  case Nil
  then show ?case by simp
next
  case (Cons x xs)
  then obtain st1 where "add_node st x = Inr st1" "add_nodes st1 xs = Inr st'"
    by (cases "add_node st x") auto
  with Cons.IH [of st1] add_node_labels [of st x st1] show ?case by simp
qed

lemma well_listed_empty: "well_listed empty_state []"
  by (simp add: well_listed_def empty_state_def)

lemma array_as_single:
  assumes "xs \<noteq> []"
    and "js_get (hd xs) ''type'' \<noteq> JUndefined \<or> js_get (hd xs) ''path'' \<noteq> JUndefined"
    and "is_object (hd xs)"
  shows "convertAnatomyToTree fuel (JArr xs) = render_single fuel (JArr xs)"
proof -
  from assms(1) obtain y ys where xs: "xs = y # ys" by (cases xs) auto
  with assms(2,3) have "\<not> isVariantBased (first_value (JArr xs))"
    by (cases y) (auto simp: first_value_array isVariantBased_iff)
  then show ?thesis by (simp add: convertAnatomyToTree_def)
qed

lemma in_order_as_root: "in_order st \<Longrightarrow> in_order (as_root st x)"
  by (auto simp: in_order_def as_root_fields new_node_leaf sorted_wrt_append less_Suc_eq)

lemma in_order_as_child:
  assumes "in_order st"
  shows "in_order (as_child st x p)"
proof -
  let ?k = "length (nodes st)"
  let ?S = "nodes st @ [new_node x]"
  have old: "\<forall>n \<in> set ?S. sorted_wrt (<) (children n) \<and> (\<forall>c \<in> set (children n). c < ?k)"
    using assms by (auto simp: in_order_def new_node_leaf)
  have "\<forall>n \<in> set (push_child ?S p ?k).
          sorted_wrt (<) (children n) \<and> (\<forall>c \<in> set (children n). c < Suc ?k)"
  proof
    fix n assume n: "n \<in> set (push_child ?S p ?k)"
    show "sorted_wrt (<) (children n) \<and> (\<forall>c \<in> set (children n). c < Suc ?k)"
    proof (cases "p < length ?S")
      case False
      with n have "n \<in> set ?S" by (simp add: push_child_def list_update_beyond not_less)
      with old show ?thesis by (auto simp: less_Suc_eq)
    next
      case True
      then have p: "?S ! p \<in> set ?S" by (rule nth_mem)
      from n have "n = (?S ! p)\<lparr>children := children (?S ! p) @ [?k]\<rparr> \<or> n \<in> set ?S"
        unfolding push_child_def using set_update_subset_insert [of ?S p] by blast
      then show ?thesis
      proof
        assume "n = (?S ! p)\<lparr>children := children (?S ! p) @ [?k]\<rparr>"
        with old p show ?thesis by (auto simp: sorted_wrt_append less_Suc_eq)
      next
        assume "n \<in> set ?S"
        with old show ?thesis by (auto simp: less_Suc_eq)
      qed
    qed
  qed
  moreover from assms have "sorted_wrt (<) (rootNodes st)" "\<forall>r \<in> set (rootNodes st). r < Suc ?k"
    by (auto simp: in_order_def less_Suc_eq)
  ultimately show ?thesis
    by (simp add: in_order_def as_child_fields length_push_child)
qed

lemma add_nodes_in_order:
  "in_order st \<Longrightarrow> list_all is_object xs \<Longrightarrow> \<exists>st'. add_nodes st xs = Inr st' \<and> in_order st'"
proof (induction xs arbitrary: st)
  case Nil
  then show ?case by simp
next
  case (Cons x xs)
  from Cons.prems(2) have obj: "x \<noteq> JUndefined" "x \<noteq> JNull" by auto
  let ?st1 = "if \<not> truthy (js_get x ''parentPath'') then as_root st x
          else (case map_get (new_map st x) (js_get x ''parentPath'') of
                  Some p \<Rightarrow> as_child st x p
                | None \<Rightarrow> as_root st x)"
  have step: "add_node st x = Inr ?st1" by (rule add_node_cases [OF obj])
  have "in_order ?st1"
    using Cons.prems(1) by (simp add: in_order_as_root in_order_as_child split: option.split)
  from Cons.IH [OF this] Cons.prems(2) step show ?case by simp
qed

lemma in_order_empty: "in_order empty_state"
  by (simp add: in_order_def empty_state_def)

lemma thenE_assoc: "thenE (thenE m f) g = thenE m (\<lambda>x. thenE (f x) g)"
  by (cases m) simp_all

lemma thenE_return: "thenE m Inr = m"
  by (cases m) simp_all

lemma lines_in_order_append:
  "lines_in_order store (xs @ ys)
     = thenE (lines_in_order store xs) (\<lambda>first.
       thenE (lines_in_order store ys) (\<lambda>others. Inr (first @ others)))"
proof (induction xs)
  case Nil
  then show ?case by (simp add: thenE_return)
next
  case (Cons x xs)
  then show ?case by (simp add: thenE_assoc)
qed

lemma render_visit:
  "\<forall>order p l r. visitNode fuel store a = Inr order \<longrightarrow>
     (\<exists>ds. length ds = length order - 1
        \<and> renderNode fuel store a p l r
            = lines_in_order store (zip order ((False, p, l, r) # ds)))"
  "\<forall>order p. visitChildren fuel store cs = Inr order \<longrightarrow>
     (\<exists>ds. length ds = length order
        \<and> renderChildren fuel store cs p = lines_in_order store (zip order ds))"
proof (induction fuel store a and fuel store cs rule: visitNode_visitChildren.induct)
  case (1 store node)
  then show ?case by simp
next
  case (2 fuel store node)
  show ?case
  proof (intro allI impI)
    fix order p l r
    assume v: "visitNode (Suc fuel) store node = Inr order"
    then obtain below where below: "visitChildren fuel store (children (store ! node)) = Inr below"
      and order: "order = node # below"
      by (cases "visitChildren fuel store (children (store ! node))") auto
    from 2 below obtain ds where ds: "length ds = length below"
      and kids: "renderChildren fuel store (children (store ! node)) (child_prefix p l r)
                   = lines_in_order store (zip below ds)"
      by blast
    have "renderNode (Suc fuel) store node p l r
            = lines_in_order store (zip order ((False, p, l, r) # ds))"
      by (simp add: order kids entry_lines_def thenE_assoc)
    with ds order show "\<exists>ds. length ds = length order - 1
        \<and> renderNode (Suc fuel) store node p l r
            = lines_in_order store (zip order ((False, p, l, r) # ds))"
      by auto
  qed
next
  case (3 fuel store)
  then show ?case by simp
next
  case (4 fuel store child rest)
  show ?case
  proof (intro allI impI)
    fix order p
    assume v: "visitChildren fuel store (child # rest) = Inr order"
    then obtain o1 o2 where o1: "visitNode fuel store child = Inr o1"
      and o2: "visitChildren fuel store rest = Inr o2" and order: "order = o1 @ o2"
      by (cases "visitNode fuel store child"; cases "visitChildren fuel store rest") auto
    from 4(1) o1 obtain d1 where d1: "length d1 = length o1 - 1"
      and first: "renderNode fuel store child p (rest = []) False
                    = lines_in_order store (zip o1 ((False, p, rest = [], False) # d1))"
      by blast
    from 4(2) o1 o2 obtain d2 where d2: "length d2 = length o2"
      and others: "renderChildren fuel store rest p = lines_in_order store (zip o2 d2)"
      by blast
    from o1 have "o1 \<noteq> []" by (cases fuel) (auto split: sum.splits simp: thenE_def)
    with d1 have len: "length ((False, p, rest = [], False) # d1) = length o1" by (cases o1) auto
    let ?ds = "((False, p, rest = [], False) # d1) @ d2"
    have "zip order ?ds = zip o1 ((False, p, rest = [], False) # d1) @ zip o2 d2"
      unfolding order using len by (simp only: zip_append)
    then have "renderChildren fuel store (child # rest) p = lines_in_order store (zip order ?ds)"
      by (simp add: first others lines_in_order_append)
    moreover have "length ?ds = length order" using len d2 order by simp
    ultimately show "\<exists>ds. length ds = length order
        \<and> renderChildren fuel store (child # rest) p = lines_in_order store (zip order ds)"
      by blast
  qed
qed

lemma render_roots_visit:
  "visitChildren fuel store roots = Inr order \<Longrightarrow>
     \<exists>ds. length ds = length order
        \<and> renderRoots fuel store index roots = lines_in_order store (zip order ds)"
proof (induction roots arbitrary: order index)
  case Nil
  then show ?case by simp
next
  case (Cons root rest)
  from Cons.prems obtain o1 o2 where o1: "visitNode fuel store root = Inr o1"
    and o2: "visitChildren fuel store rest = Inr o2" and order: "order = o1 @ o2"
    by (cases "visitNode fuel store root"; cases "visitChildren fuel store rest") auto
  from o1 obtain below where o1': "o1 = root # below"
    by (cases fuel) (auto split: sum.splits simp: thenE_def)
  from render_visit(1) [of fuel store root] o1 o1' obtain d1 where d1: "length d1 = length below"
    and first: "renderNode fuel store root '''' True True
                  = lines_in_order store ((root, (False, '''', True, True)) # zip below d1)"
    by fastforce
  from Cons.IH [OF o2, of "Suc index"] obtain d2 where d2: "length d2 = length o2"
    and others: "renderRoots fuel store (Suc index) rest = lines_in_order store (zip o2 d2)"
    by blast
  let ?ds = "((index > 0, '''', True, True) # d1) @ d2"
  have z: "zip order ?ds = ((root, (index > 0, '''', True, True)) # zip below d1) @ zip o2 d2"
    unfolding order o1' using d1 by simp
  have "renderRoots fuel store index (root # rest) = lines_in_order store (zip order ?ds)"
    unfolding z lines_in_order_append
    by (simp add: first others entry_lines_def thenE_assoc)
  moreover have "length ?ds = length order" using d1 d2 order o1' by simp
  ultimately show ?case by blast
qed

lemma render_tree_visit:
  assumes "render_order fuel (store, roots) = Inr order"
  shows "\<exists>ds. length ds = length order
      \<and> renderTree fuel (store, roots)
          = thenE (lines_in_order store (zip order ds)) (\<lambda>lines. Inr (join newline lines))"
  using render_roots_visit [of fuel store roots order 0] assms
  by (auto simp: render_order_def renderTree_def)

text \<open>
  Claim C1, as amended.  The builder processes an explicit sequence as it is given: node
  \<open>i\<close> of the store carries the name and the type of record \<open>i\<close>, and the roots and
  the children of every node are listed in the order of the input.  When the first record
  has a type or a path, \<^verbatim>\<open>convertAnatomyToTree\<close> renders this tree.  When the records are
  listed depth first, \<^verbatim>\<open>renderTree\<close> reaches the nodes in the order of the input, for
  every bound on the recursion depth from the number of records on: its text is made of
  the lines of node 0, then those of node 1, and so on.
\<close>

theorem depth_first_order:
  assumes "list_all is_object xs"
  shows "\<exists>store roots.
           buildTreeFromAnatomy (JArr xs) = Inr (store, roots)
           \<and> map name store = map (\<lambda>x. js_get x ''name'') xs
           \<and> map type store = map (\<lambda>x. or_else (js_get x ''type'') (JStr ''UNKNOWN'')) xs
           \<and> sorted_wrt (<) roots
           \<and> list_all (\<lambda>n. sorted_wrt (<) (children n)) store
           \<and> (xs = [] \<or> js_get (hd xs) ''type'' \<noteq> JUndefined
                \<or> js_get (hd xs) ''path'' \<noteq> JUndefined
                \<longrightarrow> convertAnatomyToTree fuel (JArr xs) = renderTree fuel (store, roots))
           \<and> (depth_first xs \<longrightarrow>
                (\<forall>fuel \<ge> length xs.
                   render_order fuel (store, roots) = Inr [0..<length xs]
                   \<and> (\<exists>ds. length ds = length xs
                         \<and> renderTree fuel (store, roots)
                             = thenE (lines_in_order store (zip [0..<length xs] ds))
                                 (\<lambda>lines. Inr (join newline lines)))))"
proof -
  from add_nodes_in_order [OF in_order_empty assms]
  obtain st' where st': "add_nodes empty_state xs = Inr st'" and ord: "in_order st'"
    by blast
  have build: "buildTreeFromAnatomy (JArr xs) = Inr (nodes st', rootNodes st')"
    using st' by (simp add: buildTreeFromAnatomy_def nodesArray_of_def)
  from ord have siblings: "sorted_wrt (<) (rootNodes st')"
      "list_all (\<lambda>n. sorted_wrt (<) (children n)) (nodes st')"
    by (simp_all add: in_order_def list_all_iff)
  from add_nodes_labels [OF st']
  have labels: "map name (nodes st') = map (\<lambda>x. js_get x ''name'') xs"
      "map type (nodes st') = map (\<lambda>x. or_else (js_get x ''type'') (JStr ''UNKNOWN'')) xs"
    by (simp_all add: empty_state_def)
  have single: "xs = [] \<or> js_get (hd xs) ''type'' \<noteq> JUndefined
                  \<or> js_get (hd xs) ''path'' \<noteq> JUndefined
      \<longrightarrow> convertAnatomyToTree fuel (JArr xs) = renderTree fuel (nodes st', rootNodes st')"
  proof (cases xs)
    case Nil
    with build show ?thesis
      by (simp add: convertAnatomyToTree_def first_value_empty isVariantBased_iff
          render_single_def)
  next
    case (Cons y ys)
    with assms have "is_object (hd xs)" by simp
    with array_as_single [of xs fuel] build Cons show ?thesis
      by (auto simp: render_single_def)
  qed
  have listed: "depth_first xs \<longrightarrow>
      (\<forall>fuel \<ge> length xs.
         render_order fuel (nodes st', rootNodes st') = Inr [0..<length xs]
         \<and> (\<exists>ds. length ds = length xs
               \<and> renderTree fuel (nodes st', rootNodes st')
                   = thenE (lines_in_order (nodes st') (zip [0..<length xs] ds))
                       (\<lambda>lines. Inr (join newline lines))))"
  proof (intro impI allI)
    fix fuel assume df: "depth_first xs" and fuel: "length xs \<le> fuel"
    from df have "depth_first_from (nodesByPath empty_state) [] (length (nodes empty_state)) xs"
      by (simp add: depth_first_def empty_state_def)
    from add_nodes_listed [OF well_listed_empty assms this] st'
    obtain branch' where inv: "well_listed st' branch'" and len: "length (nodes st') = length xs"
      by (auto simp: empty_state_def)
    from inv len
    have "visitChildren (length xs) (nodes st') (rootNodes st') = Inr [0..<length xs]"
      by (simp add: well_listed_def)
    from visit_mono_children [OF this fuel]
    have order: "render_order fuel (nodes st', rootNodes st') = Inr [0..<length xs]"
      by (simp add: render_order_def)
    from render_tree_visit [OF order]
    show "render_order fuel (nodes st', rootNodes st') = Inr [0..<length xs]
         \<and> (\<exists>ds. length ds = length xs
               \<and> renderTree fuel (nodes st', rootNodes st')
                   = thenE (lines_in_order (nodes st') (zip [0..<length xs] ds))
                       (\<lambda>lines. Inr (join newline lines)))"
      using order by simp
  qed
  from build labels siblings single listed show ?thesis by blast
qed

lemma frame_records_listed: "list_all is_object frame_records \<and> depth_first frame_records"
  by code_simp

lemma frame_records_build:
  "buildTreeFromAnatomy (JArr frame_records) = Inr (frame_store, [0])"
  by code_simp

lemma frame_store_lines:
  "renderTree 3 (frame_store, [0])
     = Inr (join newline
         [package_glyph @ '' Frame'',
          ''   '' @ corner_glyph @ dash_glyph @ '' type: FRAME'',
          ''   '' @ tee_glyph @ dash_glyph @ '' Label (TEXT)'',
          ''   '' @ corner_glyph @ dash_glyph @ '' Icon (VECTOR)''])"
  by code_simp

theorem depth_first_order_witness:
  "render_order 3 (frame_store, [0]) = Inr [0, 1, 2]
   \<and> map name frame_store = [JStr ''Frame'', JStr ''Label'', JStr ''Icon'']
   \<and> convertAnatomyToTree 3 (JArr frame_records)
       = Inr (join newline
           [package_glyph @ '' Frame'',
            ''   '' @ corner_glyph @ dash_glyph @ '' type: FRAME'',
            ''   '' @ tee_glyph @ dash_glyph @ '' Label (TEXT)'',
            ''   '' @ corner_glyph @ dash_glyph @ '' Icon (VECTOR)''])"
proof -
  from frame_records_listed have obj: "list_all is_object frame_records"
    and df: "depth_first frame_records" by simp_all
  from depth_first_order [OF obj, of 3]
  obtain store roots where b: "buildTreeFromAnatomy (JArr frame_records) = Inr (store, roots)"
    and n: "map name store = map (\<lambda>x. js_get x ''name'') frame_records"
    and c: "frame_records = [] \<or> js_get (hd frame_records) ''type'' \<noteq> JUndefined
                \<or> js_get (hd frame_records) ''path'' \<noteq> JUndefined
              \<longrightarrow> convertAnatomyToTree 3 (JArr frame_records) = renderTree 3 (store, roots)"
    and o: "depth_first frame_records \<longrightarrow>
              (\<forall>fuel \<ge> length frame_records.
                 render_order fuel (store, roots) = Inr [0..<length frame_records]
                 \<and> (\<exists>ds. length ds = length frame_records
                       \<and> renderTree fuel (store, roots)
                           = thenE (lines_in_order store (zip [0..<length frame_records] ds))
                               (\<lambda>lines. Inr (join newline lines))))"
    by blast
  from b frame_records_build have s: "store = frame_store" "roots = [0]" by simp_all
  have len: "length frame_records = 3" by (simp add: frame_records_def)
  from o df len have "render_order 3 (store, roots) = Inr [0..<3]" by simp
  moreover have "[0..<3] = [0, 1, 2::nat]" by (simp add: upt_rec)
  moreover from n have "map name store = [JStr ''Frame'', JStr ''Label'', JStr ''Icon'']"
    by (simp add: frame_records_def element_def js_get_def)
  moreover from c have "convertAnatomyToTree 3 (JArr frame_records) = renderTree 3 (store, roots)"
    by (simp add: frame_records_def element_def js_get_def)
  ultimately show ?thesis using s by (simp add: frame_store_lines)
qed

text \<open>
  Claim C1 as stated fails on \<open>out_of_order\<close>: the records are listed A, B, C, and the
  tree is rendered in the order A, C, B, because C is a child of A.
\<close>

theorem input_order_counterexample:
  "buildTreeFromAnatomy out_of_order =
     Inr ([\<lparr>name = JStr ''A'', type = JStr ''FRAME'', path = JStr ''A'', parentPath = JStr '''',
            children = [2]\<rparr>,
           \<lparr>name = JStr ''B'', type = JStr ''FRAME'', path = JStr ''B'', parentPath = JStr '''',
            children = []\<rparr>,
           \<lparr>name = JStr ''C'', type = JStr ''TEXT'', path = JStr ''A > C'', parentPath = JStr ''A'',
            children = []\<rparr>], [0, 1])
   \<and> thenE (buildTreeFromAnatomy out_of_order) (render_order 3) = Inr [0, 2, 1]
   \<and> convertAnatomyToTree 3 out_of_order =
       Inr (join newline
         [package_glyph @ '' A'',
          ''   '' @ corner_glyph @ dash_glyph @ '' type: FRAME'',
          ''   '' @ corner_glyph @ dash_glyph @ '' C (TEXT)'',
          '''',
          package_glyph @ '' B'',
          ''   '' @ corner_glyph @ dash_glyph @ '' type: FRAME''])"
  by code_simp

section \<open>The order of a flat mapping\<close>

lemma js_get_flat:
  assumes "distinct (map fst es)" and "e \<in> set es"
  shows "js_get (flat_mapping es) (fst e) = flat_value e"
proof -
  from assms(2) have "(fst e, flat_value e) \<in> set (map (\<lambda>e. (fst e, flat_value e)) es)"
    by auto
  moreover from assms(1) have "distinct (map fst (map (\<lambda>e. (fst e, flat_value e)) es))"
    by (simp add: comp_def)
  ultimately have "map_of (map (\<lambda>e. (fst e, flat_value e)) es) (fst e) = Some (flat_value e)"
    by (rule map_of_is_SomeI [rotated])
  then show ?thesis by (simp add: js_get_def flat_mapping_def)
qed













section \<open>The order of the earlier converter\<close>

lemma compare_segments_le:
  assumes "\<forall>a b. a \<noteq> b \<longrightarrow> lc a b \<noteq> 0"
  shows "(compare_segments lc (n + length as) (n + length bs) as bs \<le> 0) = segments_le lc as bs"
proof (induction as arbitrary: bs n)
  case Nil
  then show ?case by simp
next
  case (Cons a as)
  show ?case
  proof (cases bs)
    case Nil
    then show ?thesis by simp
  next
    case (Cons b bs')
    with Cons.IH [of "Suc n" bs'] assms show ?thesis
      by (auto simp: order_le_less)
  qed
qed

lemma compare_paths_le:
  assumes "\<forall>a b. a \<noteq> b \<longrightarrow> lc a b \<noteq> 0"
  shows "(compare_paths lc a b \<le> 0) = path_le lc a b"
  using compare_segments_le [OF assms, of 0] by (simp add: compare_paths_def path_le_def Let_def)

lemma segments_le_trans:
  assumes anti: "\<forall>a b. (lc a b < 0) = (0 < lc b a)"
    and trans: "\<forall>a b c. lc a b < 0 \<and> lc b c < 0 \<longrightarrow> lc a c < 0"
  shows "segments_le lc as bs \<Longrightarrow> segments_le lc bs cs \<Longrightarrow> segments_le lc as cs"
proof (induction as arbitrary: bs cs)
  case Nil
  then show ?case by simp
next
  case (Cons a as)
  from Cons.prems obtain b bs' where bs: "bs = b # bs'" by (cases bs) auto
  with Cons.prems obtain c cs' where cs: "cs = c # cs'" by (cases cs) auto
  show ?case
  proof (cases "a = b")
    case ab: True
    show ?thesis
    proof (cases "b = c")
      case True
      with ab Cons.prems bs cs Cons.IH [of bs' cs'] show ?thesis by simp
    next
      case False
      with ab Cons.prems bs cs show ?thesis by simp
    qed
  next
    case ab: False
    with Cons.prems bs have lab: "lc a b < 0" by simp
    show ?thesis
    proof (cases "b = c")
      case True
      with ab lab cs show ?thesis by simp
    next
      case False
      with Cons.prems bs cs have lbc: "lc b c < 0" by simp
      from lab lbc trans have lac: "lc a c < 0" by blast
      have "a \<noteq> c"
      proof
        assume "a = c"
        with lbc have "lc b a < 0" by simp
        moreover from lab anti have "0 < lc b a" by simp
        ultimately show False by simp
      qed
      with lac cs show ?thesis by simp
    qed
  qed
qed

lemma segments_le_total:
  assumes "\<forall>a b. a \<noteq> b \<longrightarrow> lc a b \<noteq> 0" and "\<forall>a b. (lc a b < 0) = (0 < lc b a)"
  shows "segments_le lc as bs \<or> segments_le lc bs as"
proof (induction as arbitrary: bs)
  case Nil
  then show ?case by simp
next
  case (Cons a as)
  show ?case
  proof (cases bs)
    case Nil
    then show ?thesis by simp
  next
    case (Cons b bs')
    show ?thesis
    proof (cases "a = b")
      case True
      with Cons Cons.IH [of bs'] show ?thesis by simp
    next
      case False
      with assms have "lc a b < 0 \<or> lc b a < 0"
        by (metis linorder_neqE_linordered_idom)
      with False Cons show ?thesis by auto
    qed
  qed
qed

lemma set_insert_sorted: "set (insert_sorted cmp x ys) = insert x (set ys)"
  by (induction ys) auto

lemma mset_insert_sorted: "mset (insert_sorted cmp x ys) = add_mset x (mset ys)"
  by (induction ys) auto

lemma mset_js_sort: "mset (js_sort cmp xs) = mset xs"
  by (induction xs) (simp_all add: js_sort_def mset_insert_sorted)

lemma sorted_insert_sorted:
  assumes total: "\<And>x y. cmp x y \<le> 0 \<or> cmp y x \<le> 0"
    and trans: "\<And>x y z. cmp x y \<le> 0 \<Longrightarrow> cmp y z \<le> 0 \<Longrightarrow> cmp x z \<le> 0"
  shows "sorted_wrt (\<lambda>a b. cmp a b \<le> 0) ys \<Longrightarrow>
     sorted_wrt (\<lambda>a b. cmp a b \<le> 0) (insert_sorted cmp x ys)"
proof (induction ys)
  case Nil
  then show ?case by simp
next
  case (Cons y ys)
  show ?case
  proof (cases "cmp x y \<le> 0")
    case True
    with Cons.prems trans [of x y] show ?thesis by auto
  next
    case False
    with total [of x y] have "cmp y x \<le> 0" by simp
    with False Cons show ?thesis by (auto simp: set_insert_sorted)
  qed
qed

lemma sorted_js_sort:
  assumes "\<And>x y. cmp x y \<le> 0 \<or> cmp y x \<le> 0"
    and "\<And>x y z. cmp x y \<le> 0 \<Longrightarrow> cmp y z \<le> 0 \<Longrightarrow> cmp x z \<le> 0"
  shows "sorted_wrt (\<lambda>a b. cmp a b \<le> 0) (js_sort cmp xs)"
proof (induction xs)
  case Nil
  then show ?case by (simp add: js_sort_def)
next
  case (Cons x xs)
  from sorted_insert_sorted [of cmp "js_sort cmp xs" x, OF assms Cons]
  show ?case by (simp add: js_sort_def)
qed

lemma sorted_sort_nodes:
  assumes h1: "\<forall>a b. a \<noteq> b \<longrightarrow> lc a b \<noteq> 0"
    and h2: "\<forall>a b. (lc a b < 0) = (0 < lc b a)"
    and h3: "\<forall>a b c. lc a b < 0 \<and> lc b c < 0 \<longrightarrow> lc a c < 0"
  shows "sorted_wrt (path_le lc) (map l_path (sort_nodes lc ns))"
proof -
  let ?cmp = "\<lambda>a b. compare_paths lc (l_path a) (l_path b)"
  have total: "\<And>x y. ?cmp x y \<le> 0 \<or> ?cmp y x \<le> 0"
    using segments_le_total [OF h1 h2] by (simp add: compare_paths_le [OF h1] path_le_def)
  have trans: "\<And>x y z. ?cmp x y \<le> 0 \<Longrightarrow> ?cmp y z \<le> 0 \<Longrightarrow> ?cmp x z \<le> 0"
    using segments_le_trans [OF h2 h3] by (simp add: compare_paths_le [OF h1] path_le_def)
  have "sorted_wrt (\<lambda>a b. ?cmp a b \<le> 0) (js_sort ?cmp ns)"
    by (rule sorted_js_sort [of ?cmp, OF total trans])
  then show ?thesis
    by (simp add: sort_nodes_def sorted_wrt_map compare_paths_le [OF h1])
qed

lemma ordered_roots_step:
  assumes "ordered_siblings st i"
  shows "ordered_siblings (st\<lparr>l_nodeMap := m, l_rootNodes := l_rootNodes st @ [i]\<rparr>) (Suc i)"
  using assms by (auto simp: ordered_siblings_def sorted_wrt_append less_Suc_eq)

lemma ordered_map_step:
  assumes "ordered_siblings st i"
  shows "ordered_siblings (st\<lparr>l_nodeMap := m\<rparr>) (Suc i)"
  using assms by (auto simp: ordered_siblings_def less_Suc_eq)

lemma ordered_child_step:
  assumes "ordered_siblings st i"
  shows "ordered_siblings
           (st\<lparr>l_nodeMap := m,
               l_nodes := (l_nodes st)[p := (l_nodes st ! p)\<lparr>l_children :=
                             l_children (l_nodes st ! p) @ [i]\<rparr>]\<rparr>) (Suc i)"
proof -
  let ?S = "(l_nodes st)[p := (l_nodes st ! p)\<lparr>l_children := l_children (l_nodes st ! p) @ [i]\<rparr>]"
  have "\<forall>a < length ?S. sorted_wrt (<) (l_children (?S ! a))
          \<and> (\<forall>c \<in> set (l_children (?S ! a)). c < Suc i)"
  proof (intro allI impI)
    fix a assume a: "a < length ?S"
    with assms have old: "sorted_wrt (<) (l_children (l_nodes st ! a))"
        "\<forall>c \<in> set (l_children (l_nodes st ! a)). c < i"
      by (simp_all add: ordered_siblings_def)
    show "sorted_wrt (<) (l_children (?S ! a)) \<and> (\<forall>c \<in> set (l_children (?S ! a)). c < Suc i)"
    proof (cases "a = p")
      case True
      with a old show ?thesis by (auto simp: sorted_wrt_append less_Suc_eq)
    next
      case False
      with a old show ?thesis by (auto simp: less_Suc_eq)
    qed
  qed
  with assms show ?thesis by (auto simp: ordered_siblings_def less_Suc_eq)
qed

lemma legacy_place_ordered:
  "ordered_siblings st i \<Longrightarrow> ordered_siblings (legacy_place st i) (Suc i)"
  by (auto simp: legacy_place_def Let_def ordered_roots_step ordered_map_step ordered_child_step
      split: option.split)

lemma legacy_place_paths:
  "map l_path (l_nodes (legacy_place st i)) = map l_path (l_nodes st)"
proof -
  have "\<And>p v. map l_path ((l_nodes st)[p := (l_nodes st ! p)\<lparr>l_children := v\<rparr>])
          = map l_path (l_nodes st)"
    by (simp add: map_update list_update_same_conv list_update_beyond not_less)
       (metis length_map list_update_beyond list_update_id not_less nth_map)
  then show ?thesis
    by (auto simp: legacy_place_def Let_def split: option.split)
qed

lemma legacy_node_flat:
  assumes "distinct (map fst es)" and "e \<in> set es"
  shows "legacy_node (flat_mapping es) (fst e) = Inr (legacy_record e)"
proof -
  obtain n t p where e: "e = (n, t, p)" by (cases e)
  have "js_get (flat_mapping es) n = JObj [(''type'', JStr t), (''path'', JStr p)]"
    using js_get_flat [OF assms] e by (simp add: flat_value_def)
  then show ?thesis
    by (cases "p = []")
       (simp_all add: legacy_node_def read_prop_def js_get_def e legacy_record_def or_else_def)
qed

lemma legacy_nodes_flat_sub:
  assumes "distinct (map fst es)"
  shows "set es' \<subseteq> set es \<Longrightarrow>
     legacy_nodes (flat_mapping es) (map fst es') = Inr (map legacy_record es')"
  by (induction es') (simp_all add: legacy_node_flat [OF assms])

lemma legacy_nodes_flat:
  assumes "distinct (map fst es)"
  shows "legacy_nodes (flat_mapping es) (map fst (own_entries (flat_mapping es)))
           = Inr (map legacy_record es)"
proof -
  have "map fst (own_entries (flat_mapping es)) = map fst es"
    by (simp add: flat_mapping_def comp_def)
  with legacy_nodes_flat_sub [OF assms, of es] show ?thesis by simp
qed

lemma foldl_place_ordered:
  "ordered_siblings st i \<Longrightarrow> ordered_siblings (foldl legacy_place st [i..<i + d]) (i + d)"
proof (induction d)
  case 0
  then show ?case by simp
next
  case (Suc d)
  have "[i..<i + Suc d] = [i..<i + d] @ [i + d]" by simp
  with legacy_place_ordered [OF Suc.IH [OF Suc.prems]] show ?case by simp
qed

lemma foldl_place_paths:
  "map l_path (l_nodes (foldl legacy_place st is)) = map l_path (l_nodes st)"
  by (induction "is" arbitrary: st) (simp_all add: legacy_place_paths)

lemma leaves_ordered:
  assumes "\<forall>n \<in> set ns. l_children n = []"
  shows "ordered_siblings \<lparr>l_nodes = ns, l_rootNodes = [], l_nodeMap = m\<rparr> 0"
  using assms by (simp add: ordered_siblings_def)

lemma legacy_build_ordered:
  assumes "\<forall>n \<in> set ns. l_children n = []"
  shows "ordered_siblings (legacy_build ns) (length ns)"
  using foldl_place_ordered [OF leaves_ordered [OF assms], of "\<lambda>k. None" "length ns"]
  by (simp add: legacy_build_def)

lemma legacy_build_paths: "map l_path (l_nodes (legacy_build ns)) = map l_path ns"
  by (simp add: legacy_build_def foldl_place_paths)

lemma increasing_sorted:
  assumes "sorted_wrt P (map f xs)"
  shows "sorted_wrt (<) cs \<Longrightarrow> \<forall>c \<in> set cs. c < length xs \<Longrightarrow>
     sorted_wrt P (map (\<lambda>c. f (xs ! c)) cs)"
proof (induction cs)
  case Nil
  then show ?case by simp
next
  case (Cons c cs)
  have "\<forall>d \<in> set cs. P (f (xs ! c)) (f (xs ! d))"
  proof
    fix d assume d: "d \<in> set cs"
    with Cons.prems have "c < d" "d < length xs" by auto
    with sorted_wrt_nth_less [OF assms, of c d] show "P (f (xs ! c)) (f (xs ! d))" by simp
  qed
  with Cons show ?case by simp
qed

lemma legacy_siblings_sorted:
  assumes leaves: "\<forall>n \<in> set ns. l_children n = []"
    and sorted: "sorted_wrt P (map l_path ns)"
  shows "sorted_wrt P (sibling_paths (l_nodes (legacy_build ns)) (l_rootNodes (legacy_build ns)))"
    and "list_all (\<lambda>n. sorted_wrt P (sibling_paths (l_nodes (legacy_build ns)) (l_children n)))
           (l_nodes (legacy_build ns))"
proof -
  let ?st = "legacy_build ns"
  from legacy_build_paths [of ns] have len: "length (l_nodes ?st) = length ns"
    by (metis length_map)
  from sorted have s: "sorted_wrt P (map l_path (l_nodes ?st))"
    by (simp add: legacy_build_paths)
  from legacy_build_ordered [OF leaves]
  have roots: "sorted_wrt (<) (l_rootNodes ?st)" "\<forall>r \<in> set (l_rootNodes ?st). r < length (l_nodes ?st)"
    and kids: "\<forall>a < length (l_nodes ?st). sorted_wrt (<) (l_children (l_nodes ?st ! a))
                \<and> (\<forall>c \<in> set (l_children (l_nodes ?st ! a)). c < length (l_nodes ?st))"
    by (simp_all add: ordered_siblings_def len)
  from increasing_sorted [OF s roots]
  show "sorted_wrt P (sibling_paths (l_nodes ?st) (l_rootNodes ?st))"
    by (simp add: sibling_paths_def)
  show "list_all (\<lambda>n. sorted_wrt P (sibling_paths (l_nodes ?st) (l_children n))) (l_nodes ?st)"
    unfolding list_all_length sibling_paths_def
  proof (intro allI impI)
    fix a assume "a < length (l_nodes ?st)"
    with kids have "sorted_wrt (<) (l_children (l_nodes ?st ! a))"
      "\<forall>c \<in> set (l_children (l_nodes ?st ! a)). c < length (l_nodes ?st)" by auto
    from increasing_sorted [OF s this]
    show "sorted_wrt P (map (\<lambda>c. l_path (l_nodes ?st ! c)) (l_children (l_nodes ?st ! a)))" .
  qed
qed

lemma legacy_record_leaf: "l_children (legacy_record e) = []"
  by (cases e) (simp add: legacy_record_def)

lemma set_sort_nodes: "set (sort_nodes lc ns) = set ns"
  by (metis mset_js_sort set_mset_mset sort_nodes_def)

lemma code_unit_order_eq: "code_unit_order a b = 0 \<Longrightarrow> a = b"
proof (induction a arbitrary: b)
  case Nil
  then show ?case by (cases b) simp_all
next
  case (Cons x xs)
  then show ?case by (cases b) (simp_all split: if_splits)
qed

lemma code_unit_order_anti: "(code_unit_order a b < 0) = (0 < code_unit_order b a)"
proof (induction a arbitrary: b)
  case Nil
  then show ?case by (cases b) simp_all
next
  case (Cons x xs)
  show ?case
  proof (cases b)
    case Nil
    then show ?thesis by simp
  next
    case (Cons y ys)
    with Cons.IH [of ys] show ?thesis by (auto simp: not_less order_le_less)
  qed
qed

lemma code_unit_order_trans:
  "code_unit_order a b < 0 \<Longrightarrow> code_unit_order b c < 0 \<Longrightarrow> code_unit_order a c < 0"
proof (induction a arbitrary: b c)
  case Nil
  then show ?case by (cases b; cases c) simp_all
next
  case (Cons x xs)
  from Cons.prems obtain y ys where b: "b = y # ys" by (cases b) auto
  with Cons.prems obtain z zs where c: "c = z # zs" by (cases c) auto
  from Cons.prems Cons.IH [of ys zs] show ?case
    unfolding b c by (auto split: if_splits)
qed

lemma code_unit_order_collation:
  "(\<forall>a b. a \<noteq> b \<longrightarrow> code_unit_order a b \<noteq> 0)
   \<and> (\<forall>a b. (code_unit_order a b < 0) = (0 < code_unit_order b a))
   \<and> (\<forall>a b c. code_unit_order a b < 0 \<and> code_unit_order b c < 0 \<longrightarrow> code_unit_order a c < 0)"
  using code_unit_order_eq code_unit_order_anti code_unit_order_trans by blast

text \<open>
  The earlier converter sorts.  Under a collation that separates different strings, is
  antisymmetric and is transitive, its comparator is at most zero exactly for two paths
  in the order \<open>path_le\<close>; the sorted array holds the same nodes by increasing path; and
  the roots and the children of every node of its tree are listed by increasing path.
\<close>

lemma legacy_sorting:
  assumes names: "distinct (map fst es)"
    and h1: "\<forall>a b. a \<noteq> b \<longrightarrow> lc a b \<noteq> 0"
    and h2: "\<forall>a b. (lc a b < 0) = (0 < lc b a)"
    and h3: "\<forall>a b c. lc a b < 0 \<and> lc b c < 0 \<longrightarrow> lc a c < 0"
  shows "(let sorted_nodes = sort_nodes lc (map legacy_record es);
              st = legacy_build sorted_nodes
          in legacy_nodes (flat_mapping es) (map fst (own_entries (flat_mapping es)))
               = Inr (map legacy_record es)
             \<and> mset sorted_nodes = mset (map legacy_record es)
             \<and> sorted_wrt (path_le lc) (map l_path sorted_nodes)
             \<and> map l_path (l_nodes st) = map l_path sorted_nodes
             \<and> sorted_wrt (path_le lc) (sibling_paths (l_nodes st) (l_rootNodes st))
             \<and> list_all (\<lambda>n. sorted_wrt (path_le lc) (sibling_paths (l_nodes st) (l_children n)))
                  (l_nodes st))
         \<and> (\<forall>a b. (compare_paths lc a b \<le> 0) = path_le lc a b)"
proof -
  let ?ns = "sort_nodes lc (map legacy_record es)"
  have leaves: "\<forall>n \<in> set ?ns. l_children n = []"
    by (auto simp: set_sort_nodes legacy_record_leaf)
  have sorted: "sorted_wrt (path_le lc) (map l_path ?ns)"
    by (rule sorted_sort_nodes [OF h1 h2 h3])
  have perm: "mset ?ns = mset (map legacy_record es)"
    by (simp add: sort_nodes_def mset_js_sort)
  from legacy_nodes_flat [OF names] perm sorted legacy_build_paths [of ?ns]
    legacy_siblings_sorted [OF leaves sorted] compare_paths_le [OF h1]
  show ?thesis by (simp add: Let_def)
qed

end
